theory Spec2Isabelle
  imports Complex_Main "HOL-Library.Code_Target_Nat"
begin

section \<open>Piece table\<close>

text \<open>
  The editing core of miu keeps the document in a piece table
  (\<^verbatim>\<open>struct PieceTable\<close> in \<^verbatim>\<open>Source.cpp\<close>, \<^verbatim>\<open>part_001\<close> and \<^verbatim>\<open>part_002\<close>).
  Bytes are \<^typ>\<open>char\<close> (8 bit), a \<^verbatim>\<open>std::string\<close> is a \<^typ>\<open>string\<close>, and
  \<^verbatim>\<open>size_t\<close> is \<^typ>\<open>nat\<close>: inside the piece table every subtraction is guarded by
  the comparison that precedes it and every sum is bounded by a buffer size, so no
  operation wraps. The read-only mapping \<^verbatim>\<open>origPtr\<close> is the string of the bytes
  that can be read through the pointer.
\<close>

record Piece =
  isOriginal :: bool
  start :: nat
  len :: nat

record PieceTable =
  origPtr :: string
  origSize :: nat
  addBuf :: string
  pieces :: "Piece list"

text \<open>\<^verbatim>\<open>std::vector::insert(begin() + i, x)\<close> and \<^verbatim>\<open>std::vector::erase(begin() + i)\<close>.\<close>

definition vec_insert :: "nat \<Rightarrow> 'a \<Rightarrow> 'a list \<Rightarrow> 'a list" where
  "vec_insert i x xs = take i xs @ x # drop i xs"

definition vec_erase :: "nat \<Rightarrow> 'a list \<Rightarrow> 'a list" where
  "vec_erase i xs = take i xs @ drop (Suc i) xs"

text \<open>Reading \<open>n\<close> bytes at offset \<open>off\<close> of a buffer (\<^verbatim>\<open>out.append(ptr + off, n)\<close>).\<close>

definition bytes :: "string \<Rightarrow> nat \<Rightarrow> nat \<Rightarrow> string" where
  "bytes buf off n = take n (drop off buf)"

definition buffer :: "PieceTable \<Rightarrow> Piece \<Rightarrow> string" where
  "buffer tb p = (if isOriginal p then origPtr tb else addBuf tb)"

definition initFromFile :: "string \<Rightarrow> nat \<Rightarrow> PieceTable \<Rightarrow> PieceTable" where
  "initFromFile data sz tb =
     tb\<lparr>origPtr := data, origSize := sz, addBuf := [],
        pieces := (if sz > 0 then [\<lparr>isOriginal = True, start = 0, len = sz\<rparr>] else [])\<rparr>"

definition initEmpty :: "PieceTable \<Rightarrow> PieceTable" where
  "initEmpty tb = tb\<lparr>origPtr := [], origSize := 0, addBuf := [], pieces := []\<rparr>"

definition pt_length :: "PieceTable \<Rightarrow> nat" where
  "pt_length tb = foldl (\<lambda>s p. s + len p) 0 (pieces tb)"

text \<open>\<^verbatim>\<open>getRange\<close>: the loop over the pieces, with its two \<^verbatim>\<open>break\<close>s.\<close>

function (sequential) getRange_loop :: "PieceTable \<Rightarrow> nat \<Rightarrow> nat \<Rightarrow> Piece list \<Rightarrow> nat \<Rightarrow> string \<Rightarrow> string" where
  "getRange_loop tb pos count [] cur out = out"
| "getRange_loop tb pos count (p # ps) cur out =
     (if cur + len p \<le> pos then getRange_loop tb pos count ps (cur + len p) out
      else
        let localStart = (if pos > cur then pos - cur else 0);
            take_n = min (len p - localStart) (count - length out)
        in if take_n = 0 then out
           else
             let out' = out @ bytes (buffer tb p) (start p + localStart) take_n
             in if length out' \<ge> count then out'
                else getRange_loop tb pos count ps (cur + len p) out')"
  by pat_completeness auto
termination
  by (relation "measure (\<lambda>(tb, pos, count, ps, cur, out). length ps)") auto

definition getRange :: "PieceTable \<Rightarrow> nat \<Rightarrow> nat \<Rightarrow> string" where
  "getRange tb pos count = getRange_loop tb pos count (pieces tb) 0 []"

text \<open>
  \<^verbatim>\<open>coalesceAround\<close> merges the piece at \<open>idx\<close> with its left and then its right
  neighbour when both lie next to each other in the add buffer.
\<close>

definition mergeable :: "Piece \<Rightarrow> Piece \<Rightarrow> bool" where
  "mergeable a b \<longleftrightarrow> \<not> isOriginal a \<and> \<not> isOriginal b \<and> start a + len a = start b"

definition coalesceAround :: "nat \<Rightarrow> Piece list \<Rightarrow> Piece list" where
  "coalesceAround idx0 ps =
     (if ps = [] then ps
      else
        let idx = (if idx0 \<ge> length ps then length ps - 1 else idx0);
            (ps1, idx1) =
              (if idx > 0 \<and> mergeable (ps ! (idx - 1)) (ps ! idx)
               then (vec_erase idx (ps[idx - 1 := (ps ! (idx - 1))\<lparr>len := len (ps ! (idx - 1)) + len (ps ! idx)\<rparr>]),
                     idx - 1)
               else (ps, idx))
        in if idx1 + 1 < length ps1 \<and> mergeable (ps1 ! idx1) (ps1 ! (idx1 + 1))
           then vec_erase (idx1 + 1) (ps1[idx1 := (ps1 ! idx1)\<lparr>len := len (ps1 ! idx1) + len (ps1 ! (idx1 + 1))\<rparr>])
           else ps1)"

text \<open>
  \<^verbatim>\<open>insert\<close>. The search loop stops at the first piece that ends at or after \<open>pos\<close>;
  \<^verbatim>\<open>pos - cur\<close> cannot wrap because the loop only advances \<open>cur\<close> while it stays
  below \<open>pos\<close>.
\<close>

function insert_seek :: "Piece list \<Rightarrow> nat \<Rightarrow> nat \<Rightarrow> nat \<Rightarrow> nat \<times> nat" where
  "insert_seek ps pos cur idx =
     (if idx < length ps \<and> cur + len (ps ! idx) < pos
      then insert_seek ps pos (cur + len (ps ! idx)) (idx + 1)
      else (cur, idx))"
  by pat_completeness auto
termination
  by (relation "measure (\<lambda>(ps, pos, cur, idx). length ps - idx)") auto

declare insert_seek.simps [simp del]

text \<open>
  The first half of \<^verbatim>\<open>insert\<close>: the search loop and the split of the piece that
  contains \<open>pos\<close>. It yields the pieces and the index \<open>idx\<close> where the new piece goes.
\<close>

definition insert_locate :: "nat \<Rightarrow> Piece list \<Rightarrow> Piece list \<times> nat" where
  "insert_locate pos ps =
     (let (cur, idx) = insert_seek ps pos 0 0
      in if idx < length ps then
           let p = ps ! idx; offsetInPiece = pos - cur
           in if offsetInPiece > 0 \<and> offsetInPiece < len p
              then (vec_insert (idx + 1)
                      \<lparr>isOriginal = isOriginal p, start = start p + offsetInPiece, len = len p - offsetInPiece\<rparr>
                      (ps[idx := \<lparr>isOriginal = isOriginal p, start = start p, len = offsetInPiece\<rparr>]),
                    idx + 1)
              else if offsetInPiece = len p then (ps, idx + 1)
              else (ps, idx)
         else (ps, length ps))"

text \<open>The body of \<^verbatim>\<open>insert\<close> up to the call of \<^verbatim>\<open>coalesceAround\<close>: the new table and \<open>idx\<close>.\<close>

definition insert_pieces :: "nat \<Rightarrow> string \<Rightarrow> PieceTable \<Rightarrow> PieceTable \<times> nat" where
  "insert_pieces pos s tb =
     (let (ps1, idx) = insert_locate pos (pieces tb);
          addStart = length (addBuf tb)
      in (tb\<lparr>addBuf := addBuf tb @ s,
             pieces := vec_insert idx \<lparr>isOriginal = False, start = addStart, len = length s\<rparr> ps1\<rparr>,
          idx))"

text \<open>\<^verbatim>\<open>PieceTable::insert\<close> of \<^verbatim>\<open>Source.cpp\<close> and \<^verbatim>\<open>part_002\<close> (coalescing).\<close>

definition pt_insert :: "nat \<Rightarrow> string \<Rightarrow> PieceTable \<Rightarrow> PieceTable" where
  "pt_insert pos s tb =
     (if s = [] then tb
      else let (tb', idx) = insert_pieces pos s tb
           in tb'\<lparr>pieces := coalesceAround idx (pieces tb')\<rparr>)"

text \<open>\<^verbatim>\<open>PieceTable::insert\<close> of \<^verbatim>\<open>part_001\<close>, which never coalesces.\<close>

definition pt_insert1 :: "nat \<Rightarrow> string \<Rightarrow> PieceTable \<Rightarrow> PieceTable" where
  "pt_insert1 pos s tb = (if s = [] then tb else fst (insert_pieces pos s tb))"

text \<open>\<^verbatim>\<open>erase\<close>: the search loop, the split of the first piece, the removal loop.\<close>

function erase_seek :: "Piece list \<Rightarrow> nat \<Rightarrow> nat \<Rightarrow> nat \<Rightarrow> nat \<times> nat" where
  "erase_seek ps pos cur idx =
     (if idx < length ps \<and> cur + len (ps ! idx) \<le> pos
      then erase_seek ps pos (cur + len (ps ! idx)) (idx + 1)
      else (cur, idx))"
  by pat_completeness auto
termination
  by (relation "measure (\<lambda>(ps, pos, cur, idx). length ps - idx)") auto

declare erase_seek.simps [simp del]

function erase_loop :: "Piece list \<Rightarrow> nat \<Rightarrow> nat \<Rightarrow> Piece list" where
  "erase_loop ps idx remaining =
     (if idx < length ps \<and> remaining > 0 then
        (if len (ps ! idx) \<le> remaining
         then erase_loop (vec_erase idx ps) idx (remaining - len (ps ! idx))
         else erase_loop (ps[idx := (ps ! idx)\<lparr>start := start (ps ! idx) + remaining,
                                               len := len (ps ! idx) - remaining\<rparr>]) idx 0)
      else ps)"
  by pat_completeness auto
termination
  by (relation "measure (\<lambda>(ps, idx, remaining). (length ps - idx) + remaining)")
     (auto simp: vec_erase_def)

declare erase_loop.simps [simp del]

text \<open>
  The first half of \<^verbatim>\<open>erase\<close>: the search loop, the early return when \<open>pos\<close> is at
  or beyond the end (\<open>None\<close>), and the split of the piece that contains \<open>pos\<close>.
\<close>

definition erase_locate :: "nat \<Rightarrow> Piece list \<Rightarrow> (Piece list \<times> nat) option" where
  "erase_locate pos ps =
     (let (cur, idx) = erase_seek ps pos 0 0
      in if idx \<ge> length ps then None
         else if pos > cur then
           let p = ps ! idx; leftLen = pos - cur
           in Some (vec_insert (idx + 1)
                      \<lparr>isOriginal = isOriginal p, start = start p + leftLen, len = len p - leftLen\<rparr>
                      (ps[idx := \<lparr>isOriginal = isOriginal p, start = start p, len = leftLen\<rparr>]),
                    idx + 1)
         else Some (ps, idx))"

text \<open>The body of \<^verbatim>\<open>erase\<close> up to the call of \<^verbatim>\<open>coalesceAround\<close>: the pieces and \<open>idx\<close>.\<close>

definition erase_pieces :: "nat \<Rightarrow> nat \<Rightarrow> Piece list \<Rightarrow> (Piece list \<times> nat) option" where
  "erase_pieces pos count ps =
     (case erase_locate pos ps of
        None \<Rightarrow> None
      | Some (ps1, idx) \<Rightarrow> Some (erase_loop ps1 idx count, idx))"

text \<open>\<^verbatim>\<open>PieceTable::erase\<close> of \<^verbatim>\<open>Source.cpp\<close> and \<^verbatim>\<open>part_002\<close> (coalescing).\<close>

definition pt_erase :: "nat \<Rightarrow> nat \<Rightarrow> PieceTable \<Rightarrow> PieceTable" where
  "pt_erase pos count tb =
     (if count = 0 then tb
      else case erase_pieces pos count (pieces tb) of
             None \<Rightarrow> tb
           | Some (ps, idx) \<Rightarrow> tb\<lparr>pieces := coalesceAround (if idx > 0 then idx - 1 else 0) ps\<rparr>)"

text \<open>\<^verbatim>\<open>PieceTable::erase\<close> of \<^verbatim>\<open>part_001\<close>, which never coalesces.\<close>

definition pt_erase1 :: "nat \<Rightarrow> nat \<Rightarrow> PieceTable \<Rightarrow> PieceTable" where
  "pt_erase1 pos count tb =
     (if count = 0 then tb
      else case erase_pieces pos count (pieces tb) of
             None \<Rightarrow> tb
           | Some (ps, idx) \<Rightarrow> tb\<lparr>pieces := ps\<rparr>)"

text \<open>
  \<^verbatim>\<open>charAt\<close>. Reading a buffer outside its bytes is undefined behaviour in C++; the
  model returns \<open>None\<close> there, so that "returns a byte" is a statement to prove.
\<close>

definition readByte :: "string \<Rightarrow> nat \<Rightarrow> char option" where
  "readByte buf i = (if i < length buf then Some (buf ! i) else None)"

fun charAt_loop :: "PieceTable \<Rightarrow> nat \<Rightarrow> Piece list \<Rightarrow> nat \<Rightarrow> char option" where
  "charAt_loop tb pos [] cur = Some (CHR '' '')"
| "charAt_loop tb pos (p # ps) cur =
     (if cur + len p \<le> pos then charAt_loop tb pos ps (cur + len p)
      else readByte (buffer tb p) (start p + (pos - cur)))"

definition charAt :: "PieceTable \<Rightarrow> nat \<Rightarrow> char option" where
  "charAt tb pos = charAt_loop tb pos (pieces tb) 0"

text \<open>
  The document: the bytes of the pieces in order, as \<^verbatim>\<open>saveFile\<close> writes them and
  \<^verbatim>\<open>rebuildLineStarts\<close> scans them.
\<close>

definition pieceBytes :: "PieceTable \<Rightarrow> Piece \<Rightarrow> string" where
  "pieceBytes tb p = bytes (buffer tb p) (start p) (len p)"

definition doc :: "PieceTable \<Rightarrow> string" where
  "doc tb = concat (map (pieceBytes tb) (pieces tb))"

text \<open>
  The representation invariant: no piece is empty and every piece lies inside its
  buffer (the mapping of \<open>origSize\<close> bytes, or the add buffer).
\<close>

definition piece_ok :: "PieceTable \<Rightarrow> Piece \<Rightarrow> bool" where
  "piece_ok tb p \<longleftrightarrow>
     len p > 0 \<and>
     (if isOriginal p then start p + len p \<le> origSize tb
      else start p + len p \<le> length (addBuf tb))"

definition wf :: "PieceTable \<Rightarrow> bool" where
  "wf tb \<longleftrightarrow> origSize tb \<le> length (origPtr tb) \<and> list_all (piece_ok tb) (pieces tb)"

subsection \<open>Auxiliary notions for the proofs\<close>

text \<open>
  The summed length of a run of pieces, the bytes of a run of pieces, the invariant on a
  run of pieces, and the split of piece \<open>idx\<close> after \<open>k\<close> bytes as both \<^verbatim>\<open>insert\<close> and
  \<^verbatim>\<open>erase\<close> perform it.
\<close>

definition plen :: "Piece list \<Rightarrow> nat" where
  "plen ps = sum_list (map len ps)"

definition ptxt :: "PieceTable \<Rightarrow> Piece list \<Rightarrow> string" where
  "ptxt tb ps = concat (map (pieceBytes tb) ps)"

definition pieces_ok :: "PieceTable \<Rightarrow> Piece list \<Rightarrow> bool" where
  "pieces_ok tb ps \<longleftrightarrow> origSize tb \<le> length (origPtr tb) \<and> list_all (piece_ok tb) ps"

definition split_piece :: "nat \<Rightarrow> nat \<Rightarrow> Piece list \<Rightarrow> Piece list" where
  "split_piece idx k ps =
     vec_insert (idx + 1)
       \<lparr>isOriginal = isOriginal (ps ! idx), start = start (ps ! idx) + k, len = len (ps ! idx) - k\<rparr>
       (ps[idx := \<lparr>isOriginal = isOriginal (ps ! idx), start = start (ps ! idx), len = k\<rparr>])"

section \<open>Line index\<close>

definition newline :: char where
  "newline = CHR 0x0A"

text \<open>
  The inner loop of \<^verbatim>\<open>rebuildLineStarts\<close>: every \<^verbatim>\<open>'\n'\<close> at index \<open>i\<close> of the
  piece pushes \<open>globalOffset + i + 1\<close>.
\<close>

definition scanPiece :: "PieceTable \<Rightarrow> Piece \<Rightarrow> nat \<Rightarrow> nat list" where
  "scanPiece tb p globalOffset =
     [globalOffset + i + 1. i \<leftarrow> [0..<len p], buffer tb p ! (start p + i) = newline]"

fun lineStarts_loop :: "PieceTable \<Rightarrow> Piece list \<Rightarrow> nat \<Rightarrow> nat list \<Rightarrow> nat list" where
  "lineStarts_loop tb [] globalOffset ls = ls"
| "lineStarts_loop tb (p # ps) globalOffset ls =
     lineStarts_loop tb ps (globalOffset + len p) (ls @ scanPiece tb p globalOffset)"

definition buildLineStarts :: "PieceTable \<Rightarrow> nat list" where
  "buildLineStarts tb = lineStarts_loop tb (pieces tb) 0 [0]"

text \<open>
  \<^verbatim>\<open>std::upper_bound\<close> on the sorted line index: the number of entries that are at
  most \<open>p\<close>. \<^verbatim>\<open>getLineIdx\<close> of \<^verbatim>\<open>part_002\<close> clamps the result at both ends; the one
  of \<^verbatim>\<open>part_001\<close> clamps it at 0 only, which gives the same value.
\<close>

definition upper_bound :: "nat list \<Rightarrow> nat \<Rightarrow> nat" where
  "upper_bound ls p = length (takeWhile (\<lambda>x. x \<le> p) ls)"

definition getLineIdx :: "nat list \<Rightarrow> nat \<Rightarrow> int" where
  "getLineIdx ls p =
     (if ls = [] then 0
      else let idx = int (upper_bound ls p) - 1;
               idx1 = (if idx < 0 then 0 else idx)
           in if idx1 \<ge> int (length ls) then int (length ls) - 1 else idx1)"

section \<open>Cursors, edit batches and the undo log\<close>

text \<open>
  Cursor offsets are \<^verbatim>\<open>size_t\<close> values that the edit intents shift with unguarded
  \<^verbatim>\<open>+=\<close> and \<^verbatim>\<open>-=\<close>; these wrap modulo \<open>2^64\<close>.
\<close>

definition SIZE_MOD :: nat where
  "SIZE_MOD = 2 ^ 64"

definition sz_add :: "nat \<Rightarrow> nat \<Rightarrow> nat" where
  "sz_add a b = (a + b) mod SIZE_MOD"

definition sz_sub :: "nat \<Rightarrow> nat \<Rightarrow> nat" where
  "sz_sub a b = (if b \<le> a then a - b else (a + SIZE_MOD - b mod SIZE_MOD) mod SIZE_MOD)"

text \<open>
  \<^verbatim>\<open>struct Cursor\<close>. The record has the fields of \<^verbatim>\<open>part_001\<close>; \<^verbatim>\<open>Source.cpp\<close> and
  \<^verbatim>\<open>part_002\<close> have the first three only, and their functions never touch the other two.
\<close>

record Cursor =
  head :: nat
  anchor :: nat
  desiredX :: real
  originalAnchorX :: real
  isVirtual :: bool

definition Cursor_start :: "Cursor \<Rightarrow> nat" where
  "Cursor_start c = min (head c) (anchor c)"

definition Cursor_end :: "Cursor \<Rightarrow> nat" where
  "Cursor_end c = max (head c) (anchor c)"

definition hasSelection :: "Cursor \<Rightarrow> bool" where
  "hasSelection c \<longleftrightarrow> head c \<noteq> anchor c"

datatype EditOpType = Insert | Erase

record EditOp =
  optype :: EditOpType
  oppos :: nat
  optext :: string

record EditBatch =
  ops :: "EditOp list"
  beforeCursors :: "Cursor list"
  afterCursors :: "Cursor list"

definition emptyBatch :: EditBatch where
  "emptyBatch = \<lparr>ops = [], beforeCursors = [], afterCursors = []\<rparr>"

text \<open>
  \<^verbatim>\<open>struct UndoManager\<close>. The stacks are vectors whose top is the last element;
  \<^verbatim>\<open>(int)undoStack.size()\<close> is the length as an integer.
\<close>

record UndoManager =
  undoStack :: "EditBatch list"
  redoStack :: "EditBatch list"
  savePoint :: int

definition um_clear :: "UndoManager \<Rightarrow> UndoManager" where
  "um_clear um = um\<lparr>undoStack := [], redoStack := [], savePoint := 0\<rparr>"

definition markSaved :: "UndoManager \<Rightarrow> UndoManager" where
  "markSaved um = um\<lparr>savePoint := int (length (undoStack um))\<rparr>"

definition isModified :: "UndoManager \<Rightarrow> bool" where
  "isModified um \<longleftrightarrow> int (length (undoStack um)) \<noteq> savePoint um"

text \<open>\<^verbatim>\<open>UndoManager::push\<close> of \<^verbatim>\<open>Source.cpp\<close> and \<^verbatim>\<open>part_002\<close>.\<close>

definition push :: "EditBatch \<Rightarrow> UndoManager \<Rightarrow> UndoManager" where
  "push batch um =
     (let um1 = (if savePoint um > int (length (undoStack um)) then um\<lparr>savePoint := -1\<rparr> else um)
      in um1\<lparr>undoStack := undoStack um1 @ [batch], redoStack := []\<rparr>)"

text \<open>\<^verbatim>\<open>UndoManager::push\<close> of \<^verbatim>\<open>part_001\<close>.\<close>

definition push1 :: "EditBatch \<Rightarrow> UndoManager \<Rightarrow> UndoManager" where
  "push1 b um = um\<lparr>undoStack := undoStack um @ [b], redoStack := []\<rparr>"

definition canUndo :: "UndoManager \<Rightarrow> bool" where
  "canUndo um \<longleftrightarrow> undoStack um \<noteq> []"

definition canRedo :: "UndoManager \<Rightarrow> bool" where
  "canRedo um \<longleftrightarrow> redoStack um \<noteq> []"

text \<open>
  \<^verbatim>\<open>popUndo\<close> and \<^verbatim>\<open>popRedo\<close> return the batch and move it to the other stack. Both
  callers check that the stack is not empty first.
\<close>

definition popUndo :: "UndoManager \<Rightarrow> EditBatch \<times> UndoManager" where
  "popUndo um =
     (let e = last (undoStack um)
      in (e, um\<lparr>undoStack := butlast (undoStack um), redoStack := redoStack um @ [e]\<rparr>))"

definition popRedo :: "UndoManager \<Rightarrow> EditBatch \<times> UndoManager" where
  "popRedo um =
     (let e = last (redoStack um)
      in (e, um\<lparr>redoStack := butlast (redoStack um), undoStack := undoStack um @ [e]\<rparr>))"

section \<open>The editor\<close>

text \<open>
  The part of \<^verbatim>\<open>struct Editor\<close> that the edit intents read and write. Window handles,
  fonts, scroll positions and the other drawing state are left out:
  \<^verbatim>\<open>ensureCaretVisible\<close>, \<^verbatim>\<open>updateTitleBar\<close>, \<^verbatim>\<open>updateScrollBars\<close>,
  \<^verbatim>\<open>updateGutterWidth\<close> and \<^verbatim>\<open>InvalidateRect\<close> only touch those.
  \<^verbatim>\<open>pendingPadding\<close> and the search fields exist in \<^verbatim>\<open>part_002\<close> only.
\<close>

record Editor =
  pt :: PieceTable
  undo :: UndoManager
  cursors :: "Cursor list"
  lineStarts :: "nat list"
  isDirty :: bool
  pendingPadding :: EditBatch
  searchQuery :: string
  replaceQuery :: string
  searchMatchCase :: bool
  searchWholeWord :: bool
  searchRegex :: bool

definition rebuildLineStarts :: "Editor \<Rightarrow> Editor" where
  "rebuildLineStarts ed = ed\<lparr>lineStarts := buildLineStarts (pt ed)\<rparr>"

definition updateDirtyFlag :: "Editor \<Rightarrow> Editor" where
  "updateDirtyFlag ed = ed\<lparr>isDirty := isModified (undo ed)\<rparr>"

definition commitPadding :: "Editor \<Rightarrow> Editor" where
  "commitPadding ed =
     (if ops (pendingPadding ed) = [] then ed
      else ed\<lparr>undo := push (pendingPadding ed) (undo ed), pendingPadding := emptyBatch\<rparr>)"

subsection \<open>Undo and redo\<close>

text \<open>What \<^verbatim>\<open>performUndo\<close> and \<^verbatim>\<open>performRedo\<close> do with one operation of the batch.\<close>

definition undoOp :: "EditOp \<Rightarrow> PieceTable \<Rightarrow> PieceTable" where
  "undoOp e tb =
     (if optype e = Insert then pt_erase (oppos e) (length (optext e)) tb
      else pt_insert (oppos e) (optext e) tb)"

definition redoOp :: "EditOp \<Rightarrow> PieceTable \<Rightarrow> PieceTable" where
  "redoOp e tb =
     (if optype e = Insert then pt_insert (oppos e) (optext e) tb
      else pt_erase (oppos e) (length (optext e)) tb)"

text \<open>
  \<^verbatim>\<open>performUndo\<close> and \<^verbatim>\<open>performRedo\<close> of \<^verbatim>\<open>Source.cpp\<close> and \<^verbatim>\<open>part_002\<close>. The loop
  of \<^verbatim>\<open>performUndo\<close> counts an \<^verbatim>\<open>int\<close> down from \<^verbatim>\<open>(int)b.ops.size() - 1\<close>; the fold
  over the reversed list is that loop for a batch of fewer than \<open>2^31\<close> operations.
\<close>

definition performUndo :: "Editor \<Rightarrow> Editor" where
  "performUndo ed =
     (if \<not> canUndo (undo ed) then ed
      else
        let (b, um) = popUndo (undo ed);
            tb = foldl (\<lambda>t e. undoOp e t) (pt ed) (rev (ops b))
        in updateDirtyFlag (rebuildLineStarts (ed\<lparr>undo := um, pt := tb, cursors := beforeCursors b\<rparr>)))"

definition performRedo :: "Editor \<Rightarrow> Editor" where
  "performRedo ed =
     (if \<not> canRedo (undo ed) then ed
      else
        let (b, um) = popRedo (undo ed);
            tb = foldl (\<lambda>t e. redoOp e t) (pt ed) (ops b)
        in updateDirtyFlag (rebuildLineStarts (ed\<lparr>undo := um, pt := tb, cursors := afterCursors b\<rparr>)))"

text \<open>
  \<^verbatim>\<open>part_001\<close> passes \<^verbatim>\<open>(int)text.size()\<close> to \<^verbatim>\<open>erase\<close>: the size is truncated to 32
  bits, read as a signed number and converted back to \<^verbatim>\<open>size_t\<close>.
\<close>

definition int_cast :: "nat \<Rightarrow> nat" where
  "int_cast n = (let m = n mod 2 ^ 32 in if m < 2 ^ 31 then m else SIZE_MOD - 2 ^ 32 + m)"

definition undoOp1 :: "EditOp \<Rightarrow> PieceTable \<Rightarrow> PieceTable" where
  "undoOp1 e tb =
     (if optype e = Insert then pt_erase1 (oppos e) (int_cast (length (optext e))) tb
      else pt_insert1 (oppos e) (optext e) tb)"

definition redoOp1 :: "EditOp \<Rightarrow> PieceTable \<Rightarrow> PieceTable" where
  "redoOp1 e tb =
     (if optype e = Insert then pt_insert1 (oppos e) (optext e) tb
      else pt_erase1 (oppos e) (int_cast (length (optext e))) tb)"

definition performUndo1 :: "Editor \<Rightarrow> Editor" where
  "performUndo1 ed =
     (if undoStack (undo ed) = [] then ed
      else
        let (b, um) = popUndo (undo ed);
            tb = foldl (\<lambda>t e. undoOp1 e t) (pt ed) (rev (ops b))
        in updateDirtyFlag (rebuildLineStarts (ed\<lparr>undo := um, pt := tb, cursors := beforeCursors b\<rparr>)))"

definition performRedo1 :: "Editor \<Rightarrow> Editor" where
  "performRedo1 ed =
     (if redoStack (undo ed) = [] then ed
      else
        let (b, um) = popRedo (undo ed);
            tb = foldl (\<lambda>t e. redoOp1 e t) (pt ed) (ops b)
        in updateDirtyFlag (rebuildLineStarts (ed\<lparr>undo := um, pt := tb, cursors := afterCursors b\<rparr>)))"

text \<open>
  How every edit intent logs a batch: it performs the operations one after the other
  and pushes, for each, the position it passed to the piece table and the bytes it
  inserted or the bytes \<^verbatim>\<open>getRange\<close> returned just before it erased them. A batch
  is \<open>recorded\<close> from a table when each insert position was inside the document and each
  erase payload was the bytes at its position at that moment.
\<close>

fun recorded :: "PieceTable \<Rightarrow> EditOp list \<Rightarrow> bool" where
  "recorded tb [] = True"
| "recorded tb (e # es) =
     ((if optype e = Insert then oppos e \<le> pt_length tb
       else getRange tb (oppos e) (length (optext e)) = optext e) \<and>
      recorded (redoOp e tb) es)"

subsection \<open>Inserting at all cursors\<close>

text \<open>
  \<^verbatim>\<open>std::sort\<close> of the cursor indices by descending \<^verbatim>\<open>start()\<close>. The order of
  cursors with equal starts is unspecified in C++; the model keeps their order.
\<close>

definition sortedIndices :: "Cursor list \<Rightarrow> nat list" where
  "sortedIndices cs = sort_key (\<lambda>i. - int (Cursor_start (cs ! i))) [0..<length cs]"

text \<open>The two shifts of every cursor after an erase at \<open>s\<close> and an insert at \<open>p\<close> of \<open>l\<close> bytes.\<close>

definition shiftLeft :: "nat \<Rightarrow> nat \<Rightarrow> Cursor \<Rightarrow> Cursor" where
  "shiftLeft s l c =
     c\<lparr>head := (if head c > s then sz_sub (head c) l else head c),
       anchor := (if anchor c > s then sz_sub (anchor c) l else anchor c)\<rparr>"

definition shiftRight :: "nat \<Rightarrow> nat \<Rightarrow> Cursor \<Rightarrow> Cursor" where
  "shiftRight p l c =
     c\<lparr>head := (if head c \<ge> p then sz_add (head c) l else head c),
       anchor := (if anchor c \<ge> p then sz_add (anchor c) l else anchor c)\<rparr>"

text \<open>
  \<^verbatim>\<open>insertAtCursors\<close> of \<^verbatim>\<open>Source.cpp\<close> and \<^verbatim>\<open>part_002\<close>. The first loop erases the
  selections, the second inserts the text; both run over the sorted indices and carry
  the editor and the batch.
\<close>

fun eraseSelections :: "nat list \<Rightarrow> Editor \<times> EditBatch \<Rightarrow> Editor \<times> EditBatch" where
  "eraseSelections [] st = st"
| "eraseSelections (idx # rest) (ed, batch) =
     (let c = cursors ed ! idx
      in if hasSelection c then
           let s = Cursor_start c;
               l = Cursor_end c - s;
               d = getRange (pt ed) s l;
               tb = pt_erase s l (pt ed);
               batch1 = batch\<lparr>ops := ops batch @ [\<lparr>optype = Erase, oppos = s, optext = d\<rparr>]\<rparr>;
               cs = map (shiftLeft s l) (cursors ed);
               cs1 = cs[idx := (cs ! idx)\<lparr>head := s, anchor := s\<rparr>]
           in eraseSelections rest (ed\<lparr>pt := tb, cursors := cs1\<rparr>, batch1)
         else eraseSelections rest (ed, batch))"

fun insertTexts :: "string \<Rightarrow> nat list \<Rightarrow> Editor \<times> EditBatch \<Rightarrow> Editor \<times> EditBatch" where
  "insertTexts txt [] st = st"
| "insertTexts txt (idx # rest) (ed, batch) =
     (let c = cursors ed ! idx;
          p = head c;
          tb = pt_insert p txt (pt ed);
          batch1 = batch\<lparr>ops := ops batch @ [\<lparr>optype = Insert, oppos = p, optext = txt\<rparr>]\<rparr>;
          l = length txt;
          cs = map (shiftRight p l) (cursors ed)
      in insertTexts txt rest (ed\<lparr>pt := tb, cursors := cs\<rparr>, batch1))"

definition insertAtCursors :: "string \<Rightarrow> Editor \<Rightarrow> Editor" where
  "insertAtCursors txt ed0 =
     (let ed = commitPadding ed0
      in if cursors ed = [] then ed
         else
           let batch = emptyBatch\<lparr>beforeCursors := cursors ed\<rparr>;
               indices = sortedIndices (cursors ed);
               (ed1, batch1) = eraseSelections indices (ed, batch);
               (ed2, batch2) = insertTexts txt indices (ed1, batch1);
               batch3 = batch2\<lparr>afterCursors := cursors ed2\<rparr>
           in updateDirtyFlag (rebuildLineStarts (ed2\<lparr>undo := push batch3 (undo ed2)\<rparr>)))"

text \<open>
  \<^verbatim>\<open>insertAtCursors\<close> of \<^verbatim>\<open>part_001\<close>: one loop over a sorted copy of the cursors,
  which erases the selection and inserts at its start. The writes to \<^verbatim>\<open>c.desiredX\<close>
  and \<^verbatim>\<open>c.isVirtual\<close> go to the copy and are lost.
\<close>

definition sortedCursors :: "Cursor list \<Rightarrow> Cursor list" where
  "sortedCursors cs = sort_key (\<lambda>c. - int (Cursor_start c)) cs"

fun insertLoop1 :: "string \<Rightarrow> Cursor list \<Rightarrow> Editor \<times> EditBatch \<Rightarrow> Editor \<times> EditBatch" where
  "insertLoop1 t [] st = st"
| "insertLoop1 t (c # rest) (ed, b) =
     (let st = Cursor_start c;
          l = Cursor_end c - st;
          (ed1, b1) =
            (if l > 0 then
               (ed\<lparr>pt := pt_erase1 st l (pt ed), cursors := map (shiftLeft st l) (cursors ed)\<rparr>,
                b\<lparr>ops := ops b @ [\<lparr>optype = Erase, oppos = st, optext = getRange (pt ed) st l\<rparr>]\<rparr>)
             else (ed, b));
          tb = pt_insert1 st t (pt ed1);
          b2 = b1\<lparr>ops := ops b1 @ [\<lparr>optype = Insert, oppos = st, optext = t\<rparr>]\<rparr>;
          cs = map (shiftRight st (length t)) (cursors ed1)
      in insertLoop1 t rest (ed1\<lparr>pt := tb, cursors := cs\<rparr>, b2))"

definition insertAtCursors1 :: "string \<Rightarrow> Editor \<Rightarrow> Editor" where
  "insertAtCursors1 t ed =
     (let b = emptyBatch\<lparr>beforeCursors := cursors ed\<rparr>;
          sorted = sortedCursors (cursors ed);
          (ed1, b1) = insertLoop1 t sorted (ed, b);
          b2 = b1\<lparr>afterCursors := cursors ed1\<rparr>
      in updateDirtyFlag (rebuildLineStarts (ed1\<lparr>undo := push1 b2 (undo ed1)\<rparr>)))"

section \<open>Moving lines\<close>

text \<open>
  The horizontal position of an offset comes from the text shaper (DirectWrite in
  \<^verbatim>\<open>part_002\<close>, CoreText in \<^verbatim>\<open>part_001\<close>), which is not part of the editing core.
  \<^verbatim>\<open>getXFromPos\<close> is therefore a parameter \<open>X\<close> of the functions that store a
  \<^verbatim>\<open>desiredX\<close>: it sees the piece table, the line index and the offset.
\<close>

type_synonym shaper = "PieceTable \<Rightarrow> nat list \<Rightarrow> nat \<Rightarrow> real"

text \<open>\<^verbatim>\<open>(size_t)((long long)p + diff)\<close>: the sum modulo \<open>2^64\<close>.\<close>

definition sz_offset :: "nat \<Rightarrow> int \<Rightarrow> nat" where
  "sz_offset p diff = nat ((int p + diff) mod int SIZE_MOD)"

text \<open>\<^verbatim>\<open>std::sort\<close> followed by \<^verbatim>\<open>std::unique\<close> on the line numbers.\<close>

definition sortUnique :: "int list \<Rightarrow> int list" where
  "sortUnique ls = remdups_adj (sort ls)"

subsection \<open>\<^verbatim>\<open>moveLines\<close> of \<^verbatim>\<open>part_002\<close>\<close>

definition cursorLines :: "Editor \<Rightarrow> Cursor \<Rightarrow> int list" where
  "cursorLines ed c =
     (let startLine = getLineIdx (lineStarts ed) (Cursor_start c);
          endLine0 = getLineIdx (lineStarts ed) (Cursor_end c);
          endLine =
            (if hasSelection c \<and> Cursor_end c > Cursor_start c \<and>
                Cursor_end c > 0 \<and> charAt (pt ed) (Cursor_end c - 1) = Some newline \<and>
                endLine0 > startLine
             then endLine0 - 1 else endLine0)
      in [startLine..endLine])"

definition getSelectedLineIndices :: "Editor \<Rightarrow> int list" where
  "getSelectedLineIndices ed = sortUnique (concat (map (cursorLines ed) (cursors ed)))"

definition moveCursor :: "shaper \<Rightarrow> Editor \<Rightarrow> int \<Rightarrow> Cursor \<Rightarrow> Cursor" where
  "moveCursor X ed diff c =
     (let h = sz_offset (head c) diff
      in c\<lparr>head := h, anchor := sz_offset (anchor c) diff,
           desiredX := X (pt ed) (lineStarts ed) h\<rparr>)"

definition moveLines :: "shaper \<Rightarrow> bool \<Rightarrow> Editor \<Rightarrow> Editor" where
  "moveLines X up ed0 =
     (let ed = commitPadding ed0
      in if cursors ed = [] then ed
         else
           let lines = getSelectedLineIndices ed
           in if lines = [] then ed
              else if up \<and> hd lines = 0 then ed
              else if \<not> up \<and> last lines \<ge> int (length (lineStarts ed)) - 1 then ed
              else
                let startLine = hd lines;
                    endLine = last lines;
                    rangeStart = lineStarts ed ! nat startLine;
                    rangeEnd = (if endLine + 1 < int (length (lineStarts ed))
                                then lineStarts ed ! nat (endLine + 1) else pt_length (pt ed));
                    textToMove = getRange (pt ed) rangeStart (rangeEnd - rangeStart);
                    isLastLineNoNewline =
                      (rangeEnd = pt_length (pt ed) \<and> (textToMove = [] \<or> last textToMove \<noteq> newline));
                    batch = emptyBatch\<lparr>beforeCursors := cursors ed\<rparr>;
                    (ed1, batch1) =
                      (if up then
                         let targetLineIdx = startLine - 1;
                             targetStart = lineStarts ed ! nat targetLineIdx;
                             targetEnd = rangeStart;
                             lineAbove0 = getRange (pt ed) targetStart (targetEnd - targetStart);
                             diff = - int (rangeStart - targetStart);
                             textToMove1 = (if isLastLineNoNewline then textToMove @ [newline] else textToMove);
                             lineAbove =
                               (if isLastLineNoNewline \<and> lineAbove0 \<noteq> [] \<and> last lineAbove0 = newline
                                then butlast lineAbove0 else lineAbove0);
                             deleteLen = rangeEnd - targetStart;
                             deletedAll = getRange (pt ed) targetStart deleteLen;
                             tb1 = pt_erase targetStart deleteLen (pt ed);
                             newText = textToMove1 @ lineAbove;
                             tb2 = pt_insert targetStart newText tb1;
                             edp = ed\<lparr>pt := tb2\<rparr>
                         in (edp\<lparr>cursors := map (moveCursor X edp diff) (cursors ed)\<rparr>,
                             batch\<lparr>ops := ops batch @
                                [\<lparr>optype = Erase, oppos = targetStart, optext = deletedAll\<rparr>,
                                 \<lparr>optype = Insert, oppos = targetStart, optext = newText\<rparr>]\<rparr>)
                       else
                         let targetLineIdx = endLine + 1;
                             targetStart = rangeEnd;
                             targetEnd = (if targetLineIdx + 1 < int (length (lineStarts ed))
                                          then lineStarts ed ! nat (targetLineIdx + 1) else pt_length (pt ed));
                             lineBelow0 = getRange (pt ed) targetStart (targetEnd - targetStart);
                             fixEnd = (targetEnd = pt_length (pt ed) \<and>
                                       (lineBelow0 = [] \<or> last lineBelow0 \<noteq> newline));
                             lineBelow = (if fixEnd then lineBelow0 @ [newline] else lineBelow0);
                             textToMove1 =
                               (if fixEnd \<and> textToMove \<noteq> [] \<and> last textToMove = newline
                                then butlast textToMove else textToMove);
                             deleteLen = targetEnd - rangeStart;
                             deletedAll = getRange (pt ed) rangeStart deleteLen;
                             tb1 = pt_erase rangeStart deleteLen (pt ed);
                             newText = lineBelow @ textToMove1;
                             tb2 = pt_insert rangeStart newText tb1;
                             diff = int (length lineBelow);
                             edp = ed\<lparr>pt := tb2\<rparr>
                         in (edp\<lparr>cursors := map (moveCursor X edp diff) (cursors ed)\<rparr>,
                             batch\<lparr>ops := ops batch @
                                [\<lparr>optype = Erase, oppos = rangeStart, optext = deletedAll\<rparr>,
                                 \<lparr>optype = Insert, oppos = rangeStart, optext = newText\<rparr>]\<rparr>));
                    batch2 = batch1\<lparr>afterCursors := cursors ed1\<rparr>
                in updateDirtyFlag (rebuildLineStarts (ed1\<lparr>undo := push batch2 (undo ed1)\<rparr>)))"

subsection \<open>\<^verbatim>\<open>moveLines\<close> of \<^verbatim>\<open>part_001\<close>\<close>

definition rebuildLineStarts1 :: "Editor \<Rightarrow> Editor" where
  "rebuildLineStarts1 ed = ed\<lparr>lineStarts := buildLineStarts (pt ed)\<rparr>"

definition cursorLines1 :: "Editor \<Rightarrow> Cursor \<Rightarrow> int list" where
  "cursorLines1 ed c =
     (if \<not> hasSelection c then [getLineIdx (lineStarts ed) (head c)]
      else
        let lStart = getLineIdx (lineStarts ed) (Cursor_start c);
            lEnd0 = getLineIdx (lineStarts ed) (Cursor_end c);
            lEnd = (if lEnd0 > lStart \<and> Cursor_end c = lineStarts ed ! nat lEnd0 then lEnd0 - 1 else lEnd0)
        in [lStart..lEnd])"

definition getUniqueLineIndices :: "Editor \<Rightarrow> int list" where
  "getUniqueLineIndices ed = sortUnique (concat (map (cursorLines1 ed) (cursors ed)))"

text \<open>The grouping loop: runs of consecutive line numbers, as pairs of first and last line.\<close>

fun groups_loop :: "int list \<Rightarrow> int \<Rightarrow> int \<Rightarrow> (int \<times> int) list \<Rightarrow> (int \<times> int) list" where
  "groups_loop [] st prev gs = gs @ [(st, prev)]"
| "groups_loop (l # ls) st prev gs =
     (if l \<noteq> prev + 1 then groups_loop ls l l (gs @ [(st, prev)])
      else groups_loop ls st l gs)"

definition groupLines :: "int list \<Rightarrow> (int \<times> int) list" where
  "groupLines lines = groups_loop (tl lines) (hd lines) (hd lines) []"

text \<open>Whether an end of a cursor belongs to the moving block \<open>[posStart, posEnd)\<close>.\<close>

definition inBlock :: "Cursor \<Rightarrow> nat \<Rightarrow> nat \<Rightarrow> nat \<Rightarrow> bool" where
  "inBlock c q posStart posEnd \<longleftrightarrow>
     (q \<ge> posStart \<and> q < posEnd) \<or> (q = posEnd \<and> hasSelection c \<and> Cursor_end c = q)"

definition downCursor :: "shaper \<Rightarrow> Editor \<Rightarrow> nat \<Rightarrow> nat \<Rightarrow> nat \<Rightarrow> nat \<Rightarrow> nat \<Rightarrow> Cursor \<Rightarrow> Cursor" where
  "downCursor X ed posStart posEnd posSwapEnd swapLineLen moveLen c =
     (let headInA = inBlock c (head c) posStart posEnd;
          anchorInA = inBlock c (anchor c) posStart posEnd;
          h = (if headInA then sz_add (head c) swapLineLen
               else if head c \<ge> posEnd \<and> head c < posSwapEnd then sz_sub (head c) moveLen
               else head c);
          a = (if anchorInA then sz_add (anchor c) swapLineLen
               else if anchor c \<ge> posEnd \<and> anchor c < posSwapEnd then sz_sub (anchor c) moveLen
               else anchor c)
      in c\<lparr>head := h, anchor := a, desiredX := X (pt ed) (lineStarts ed) h, isVirtual := False\<rparr>)"

definition upCursor :: "shaper \<Rightarrow> Editor \<Rightarrow> nat \<Rightarrow> nat \<Rightarrow> nat \<Rightarrow> bool \<Rightarrow> nat \<Rightarrow> nat \<Rightarrow> Cursor \<Rightarrow> Cursor" where
  "upCursor X ed posTarget posStart posEnd isLastLine prevLineLen moveLen c =
     (let headInA = (inBlock c (head c) posStart posEnd \<or> (isLastLine \<and> head c = posEnd));
          anchorInA = (inBlock c (anchor c) posStart posEnd \<or> (isLastLine \<and> anchor c = posEnd));
          h = (if headInA then (if head c \<ge> prevLineLen then head c - prevLineLen else 0)
               else if head c \<ge> posTarget \<and> head c < posStart then sz_add (head c) moveLen
               else head c);
          a = (if anchorInA then (if anchor c \<ge> prevLineLen then anchor c - prevLineLen else 0)
               else if anchor c \<ge> posTarget \<and> anchor c < posStart then sz_add (anchor c) moveLen
               else anchor c)
      in c\<lparr>head := h, anchor := a, desiredX := X (pt ed) (lineStarts ed) h, isVirtual := False\<rparr>)"

text \<open>One iteration of the loop that moves a group down, and of the one that moves it up.\<close>

definition moveGroupDown :: "shaper \<Rightarrow> int \<times> int \<Rightarrow> Editor \<times> EditBatch \<Rightarrow> Editor \<times> EditBatch" where
  "moveGroupDown X g st =
     (let (ed, batch) = st;
          (gStart, gEnd) = g;
          swapLine = gEnd + 1;
          n = int (length (lineStarts ed));
          posStart = lineStarts ed ! nat gStart;
          posEnd = (if gEnd + 1 < n then lineStarts ed ! nat (gEnd + 1) else pt_length (pt ed));
          posSwapEnd = (if swapLine + 1 < n then lineStarts ed ! nat (swapLine + 1) else pt_length (pt ed));
          movingText = getRange (pt ed) posStart (posEnd - posStart);
          moveLen = length movingText;
          swapLineLen = posSwapEnd - posEnd;
          movingHasNewline = (moveLen > 0 \<and> last movingText = newline);
          targetIsEOF = (posSwapEnd = pt_length (pt ed));
          targetNoNewline = (swapLineLen > 0 \<and> charAt (pt ed) (posSwapEnd - 1) \<noteq> Some newline);
          tb1 = pt_erase1 posStart moveLen (pt ed);
          ops1 = ops batch @ [\<lparr>optype = Erase, oppos = posStart, optext = movingText\<rparr>];
          insertPos = posStart + swapLineLen;
          fix = (movingHasNewline \<and> targetIsEOF \<and> (targetNoNewline \<or> swapLineLen = 0));
          tb2 = (if fix then pt_insert1 insertPos [newline] tb1 else tb1);
          ops2 = (if fix then ops1 @ [\<lparr>optype = Insert, oppos = insertPos, optext = [newline]\<rparr>] else ops1);
          swapLineLen1 = (if fix then swapLineLen + 1 else swapLineLen);
          insertPos1 = (if fix then insertPos + 1 else insertPos);
          movingText1 = (if fix then butlast movingText else movingText);
          moveLen1 = (if fix then moveLen - 1 else moveLen);
          tb3 = pt_insert1 insertPos1 movingText1 tb2;
          ops3 = ops2 @ [\<lparr>optype = Insert, oppos = insertPos1, optext = movingText1\<rparr>];
          edp = ed\<lparr>pt := tb3\<rparr>;
          cs = map (downCursor X edp posStart posEnd posSwapEnd swapLineLen1 moveLen1) (cursors ed)
      in (rebuildLineStarts1 (edp\<lparr>cursors := cs\<rparr>), batch\<lparr>ops := ops3\<rparr>))"

definition moveGroupUp :: "shaper \<Rightarrow> int \<times> int \<Rightarrow> Editor \<times> EditBatch \<Rightarrow> Editor \<times> EditBatch" where
  "moveGroupUp X g st =
     (let (ed, batch) = st;
          (gStart, gEnd) = g;
          targetLine = gStart - 1;
          n = int (length (lineStarts ed));
          posTarget = lineStarts ed ! nat targetLine;
          posStart = lineStarts ed ! nat gStart;
          posEnd = (if gEnd + 1 < n then lineStarts ed ! nat (gEnd + 1) else pt_length (pt ed));
          movingText = getRange (pt ed) posStart (posEnd - posStart);
          moveLen = length movingText;
          prevLineLen = posStart - posTarget;
          isLastLine = (posEnd = pt_length (pt ed));
          noNewline = (moveLen > 0 \<and> last movingText \<noteq> newline);
          targetHasNewline = (prevLineLen > 0 \<and> charAt (pt ed) (posStart - 1) = Some newline);
          tb1 = pt_erase1 posStart moveLen (pt ed);
          ops1 = ops batch @ [\<lparr>optype = Erase, oppos = posStart, optext = movingText\<rparr>];
          fix = (isLastLine \<and> noNewline \<and> targetHasNewline);
          tb2 = (if fix then pt_erase1 (posStart - 1) 1 tb1 else tb1);
          ops2 = (if fix then ops1 @ [\<lparr>optype = Erase, oppos = posStart - 1, optext = [newline]\<rparr>] else ops1);
          movingText1 = (if fix then movingText @ [newline] else movingText);
          moveLen1 = (if fix then moveLen + 1 else moveLen);
          tb3 = pt_insert1 posTarget movingText1 tb2;
          ops3 = ops2 @ [\<lparr>optype = Insert, oppos = posTarget, optext = movingText1\<rparr>];
          edp = ed\<lparr>pt := tb3\<rparr>;
          cs = map (upCursor X edp posTarget posStart posEnd isLastLine prevLineLen moveLen1) (cursors ed)
      in (rebuildLineStarts1 (edp\<lparr>cursors := cs\<rparr>), batch\<lparr>ops := ops3\<rparr>))"

text \<open>
  \<^verbatim>\<open>moveLines\<close> of \<^verbatim>\<open>part_001\<close> first makes the document end with a newline; this
  insert is not logged in the batch. Groups move up in order and down from the last
  group to the first.
\<close>

definition ensureTrailingNewline :: "Editor \<Rightarrow> Editor" where
  "ensureTrailingNewline ed =
     (let n = pt_length (pt ed)
      in if n > 0 \<and> charAt (pt ed) (n - 1) \<noteq> Some newline
         then rebuildLineStarts1 (ed\<lparr>pt := pt_insert1 n [newline] (pt ed)\<rparr>)
         else ed)"

definition moveLines1 :: "shaper \<Rightarrow> bool \<Rightarrow> Editor \<Rightarrow> Editor" where
  "moveLines1 X up ed0 =
     (let ed = ensureTrailingNewline ed0;
          lines = getUniqueLineIndices ed
      in if lines = [] then ed
         else if up \<and> hd lines = 0 then ed
         else if \<not> up \<and> last lines \<ge> int (length (lineStarts ed)) - 1 then ed
         else
           let batch = emptyBatch\<lparr>beforeCursors := cursors ed\<rparr>;
               groups = groupLines lines;
               (ed1, batch1) =
                 (if up then foldl (\<lambda>st g. moveGroupUp X g st) (ed, batch) groups
                  else foldl (\<lambda>st g. moveGroupDown X g st) (ed, batch) (rev groups));
               batch2 = batch1\<lparr>afterCursors := cursors ed1\<rparr>
           in updateDirtyFlag (ed1\<lparr>undo := push1 batch2 (undo ed1)\<rparr>))"

section \<open>Find and replace\<close>

text \<open>
  \<^verbatim>\<open>findText\<close> and \<^verbatim>\<open>replaceAll\<close> of \<^verbatim>\<open>part_002\<close> use \<^verbatim>\<open>std::regex\<close>, which is not
  part of the repository. The engine is a parameter: \<open>rx_compile\<close> is the constructor
  \<^verbatim>\<open>std::regex re(query, flags)\<close> with the \<^verbatim>\<open>icase\<close> flag, and yields \<open>None\<close> where the
  constructor throws \<^verbatim>\<open>std::regex_error\<close>; \<open>rx_search\<close> is \<^verbatim>\<open>std::regex_search\<close> on
  a string and yields the position of the first match; \<open>rx_iter\<close> is the run of a
  \<^verbatim>\<open>std::sregex_iterator\<close> and yields position, length and \<^verbatim>\<open>format(fmt)\<close> of every
  match.
\<close>

record 're Regex =
  rx_compile :: "string \<Rightarrow> bool \<Rightarrow> 're option"
  rx_search :: "'re \<Rightarrow> string \<Rightarrow> nat option"
  rx_iter :: "'re \<Rightarrow> string \<Rightarrow> string \<Rightarrow> (nat \<times> nat \<times> string) list"

fun UnescapeString :: "string \<Rightarrow> string" where
  "UnescapeString [] = []"
| "UnescapeString [c] = [c]"
| "UnescapeString (c # d # rest) =
     (if c = CHR 0x5C then
        (if d = CHR ''n'' then CHR 0x0A # UnescapeString rest
         else if d = CHR ''r'' then CHR 0x0D # UnescapeString rest
         else if d = CHR ''t'' then CHR 0x09 # UnescapeString rest
         else if d = CHR 0x5C then CHR 0x5C # UnescapeString rest
         else c # d # UnescapeString rest)
      else c # UnescapeString (d # rest))"

definition toLower :: "char \<Rightarrow> char" where
  "toLower c =
     (if (65::nat) \<le> of_char c \<and> of_char c \<le> (90::nat) then char_of (of_char c + (32::nat)) else c)"

definition isWordChar :: "char \<Rightarrow> bool" where
  "isWordChar c =
     (let n = (of_char c :: nat)
      in (97 \<le> n \<and> n \<le> 122) \<or> (65 \<le> n \<and> n \<le> 90) \<or> (48 \<le> n \<and> n \<le> 57) \<or> n = 95 \<or> n \<ge> 128)"

text \<open>
  The body of the scan loop of \<^verbatim>\<open>findText\<close> at position \<open>cur\<close>: the comparison with the
  query, the whole-word test, and the test that no joiner, variation selector or skin
  tone modifier follows the match. Every read is below \<open>len\<close>; a read outside a buffer
  (\<open>None\<close>) counts as a mismatch.
\<close>

definition wordAt :: "PieceTable \<Rightarrow> nat \<Rightarrow> bool" where
  "wordAt tb p = (case charAt tb p of Some c \<Rightarrow> isWordChar c | None \<Rightarrow> False)"

definition byteIs :: "PieceTable \<Rightarrow> nat \<Rightarrow> nat \<Rightarrow> bool" where
  "byteIs tb p n = (case charAt tb p of Some c \<Rightarrow> of_char c = n | None \<Rightarrow> False)"

definition followedByModifier :: "PieceTable \<Rightarrow> nat \<Rightarrow> nat \<Rightarrow> bool" where
  "followedByModifier tb n nextPos =
     (if nextPos < n then
        (if byteIs tb nextPos 0xE2 \<and> nextPos + 2 < n
         then byteIs tb (nextPos + 1) 0x80 \<and> byteIs tb (nextPos + 2) 0x8D
         else if byteIs tb nextPos 0xEF \<and> nextPos + 2 < n
         then byteIs tb (nextPos + 1) 0xB8 \<and> byteIs tb (nextPos + 2) 0x8F
         else if byteIs tb nextPos 0xF0 \<and> nextPos + 3 < n
         then byteIs tb (nextPos + 1) 0x9F \<and> byteIs tb (nextPos + 2) 0x8F \<and>
              (\<exists>b \<in> {0xBB, 0xBC, 0xBD, 0xBE, 0xBF}. byteIs tb (nextPos + 3) b)
         else False)
      else False)"

definition matchAt :: "PieceTable \<Rightarrow> string \<Rightarrow> nat \<Rightarrow> bool \<Rightarrow> bool \<Rightarrow> nat \<Rightarrow> bool" where
  "matchAt tb query n matchCase wholeWord cur =
     (let qLen = length query;
          m0 = list_all (\<lambda>i. cur + i < n \<and>
                 (case charAt tb (cur + i) of
                    Some c1 \<Rightarrow> (if matchCase then c1 = query ! i else toLower c1 = toLower (query ! i))
                  | None \<Rightarrow> False)) [0..<qLen];
          m1 = (m0 \<and> (wholeWord \<longrightarrow>
                  \<not> (cur > 0 \<and> wordAt tb (cur - 1)) \<and> \<not> (cur + qLen < n \<and> wordAt tb (cur + qLen))))
      in m1 \<and> \<not> followedByModifier tb n (cur + qLen))"

function scan_loop :: "PieceTable \<Rightarrow> string \<Rightarrow> nat \<Rightarrow> bool \<Rightarrow> bool \<Rightarrow> bool \<Rightarrow> nat \<Rightarrow> nat \<Rightarrow> nat option" where
  "scan_loop tb query n forward matchCase wholeWord cur cnt =
     (if cnt < n then
        (if matchAt tb query n matchCase wholeWord cur then Some cur
         else scan_loop tb query n forward matchCase wholeWord
                (if forward then (if cur + 1 \<ge> n then 0 else cur + 1)
                 else (if cur = 0 then n - 1 else cur - 1))
                (cnt + 1))
      else None)"
  by pat_completeness auto
termination
  by (relation "measure (\<lambda>(tb, query, n, forward, matchCase, wholeWord, cur, cnt). n - cnt)") auto

declare scan_loop.simps [simp del]

text \<open>\<^verbatim>\<open>findText\<close>; \<open>None\<close> is \<^verbatim>\<open>std::string::npos\<close>.\<close>

definition findRegex :: "'re Regex \<Rightarrow> PieceTable \<Rightarrow> nat \<Rightarrow> string \<Rightarrow> bool \<Rightarrow> bool \<Rightarrow> nat option" where
  "findRegex R tb startPos query forward matchCase =
     (let n = pt_length tb;
          fullText = getRange tb 0 n
      in case rx_compile R query (\<not> matchCase) of
           None \<Rightarrow> None
         | Some re \<Rightarrow>
             if forward then
               let startPos1 = (if startPos \<ge> length fullText then 0 else startPos)
               in (case rx_search R re (drop startPos1 fullText) of
                     Some p \<Rightarrow> Some (startPos1 + p)
                   | None \<Rightarrow> rx_search R re fullText)
             else
               let limit = (if startPos = 0 then n else startPos);
                   positions = map fst (rx_iter R re fullText []);
                   below = filter (\<lambda>p. p < limit) positions
               in if below \<noteq> [] then Some (last below)
                  else if positions \<noteq> [] then Some (last positions)
                  else None)"

definition findText ::
  "'re Regex \<Rightarrow> PieceTable \<Rightarrow> nat \<Rightarrow> string \<Rightarrow> bool \<Rightarrow> bool \<Rightarrow> bool \<Rightarrow> bool \<Rightarrow> nat option" where
  "findText R tb startPos query forward matchCase wholeWord isRegex =
     (if query = [] then None
      else if isRegex then findRegex R tb startPos query forward matchCase
      else
        let n = pt_length tb;
            cur = (if forward then (if startPos \<ge> n then 0 else startPos)
                   else (if startPos = 0 then n else startPos - 1))
        in scan_loop tb query n forward matchCase wholeWord cur 0)"

text \<open>
  The collecting loop of \<^verbatim>\<open>replaceAll\<close> without regular expressions.
  \<^verbatim>\<open>replaceAll\<close> returns before the loop when the query is empty; the test is
  repeated here, where it makes the recursion terminate.
\<close>

function collect_loop ::
  "'re Regex \<Rightarrow> Editor \<Rightarrow> nat \<Rightarrow> nat \<Rightarrow> (nat \<times> nat \<times> string) list \<Rightarrow> (nat \<times> nat \<times> string) list" where
  "collect_loop R ed docLen currentPos matches =
     (case findText R (pt ed) currentPos (searchQuery ed) True (searchMatchCase ed) (searchWholeWord ed) False of
        None \<Rightarrow> matches
      | Some p \<Rightarrow>
          if p < currentPos then matches
          else
            let matches1 = matches @ [(p, length (searchQuery ed), replaceQuery ed)];
                currentPos1 = p + length (searchQuery ed)
            in if currentPos1 > docLen \<or> searchQuery ed = [] then matches1
               else collect_loop R ed docLen currentPos1 matches1)"
  by pat_completeness auto
termination
proof (relation "measure (\<lambda>(R, ed, docLen, currentPos, matches). docLen + 1 - currentPos)", goal_cases)
  case 1
  show ?case by simp
next
  case (2 R ed docLen currentPos p x y)
  then show ?case by (cases "searchQuery ed") auto
qed

declare collect_loop.simps [simp del]

text \<open>The replacement loop of \<^verbatim>\<open>replaceAll\<close>, from the last match to the first.\<close>

fun replace_loop :: "(nat \<times> nat \<times> string) list \<Rightarrow> PieceTable \<times> EditOp list \<Rightarrow> PieceTable \<times> EditOp list" where
  "replace_loop [] st = st"
| "replace_loop ((st, n, replacementText) # rest) (tb, es) =
     (let deleted = getRange tb st n;
          tb1 = pt_erase st n tb;
          tb2 = pt_insert st replacementText tb1
      in replace_loop rest
           (tb2, es @ [\<lparr>optype = Erase, oppos = st, optext = deleted\<rparr>,
                       \<lparr>optype = Insert, oppos = st, optext = replacementText\<rparr>]))"

definition replaceAll :: "'re Regex \<Rightarrow> Editor \<Rightarrow> Editor" where
  "replaceAll R ed =
     (if searchQuery ed = [] then ed
      else
        let docLen = pt_length (pt ed);
            found =
              (if searchRegex ed then
                 let fullText = getRange (pt ed) 0 docLen;
                     fmt = UnescapeString (replaceQuery ed)
                 in (case rx_compile R (searchQuery ed) (\<not> searchMatchCase ed) of
                       None \<Rightarrow> None
                     | Some re \<Rightarrow> Some (rx_iter R re fullText fmt))
               else Some (collect_loop R ed docLen 0 []))
        in case found of
             None \<Rightarrow> ed
           | Some matches \<Rightarrow>
               if matches = [] then ed
               else
                 let ed1 = commitPadding ed;
                     (tb, es) = replace_loop (rev matches) (pt ed1, []);
                     cs = [\<lparr>head = 0, anchor = 0, desiredX = 0, originalAnchorX = 0, isVirtual = False\<rparr>];
                     batch = \<lparr>ops = es, beforeCursors = cursors ed1, afterCursors = cs\<rparr>
                 in updateDirtyFlag (rebuildLineStarts
                      (ed1\<lparr>pt := tb, cursors := cs, undo := push batch (undo ed1)\<rparr>)))"

section \<open>Reachable piece tables\<close>

text \<open>
  The tables that the public operations build: \<^verbatim>\<open>initEmpty\<close>, \<^verbatim>\<open>initFromFile\<close> on a
  mapping of at least \<open>sz\<close> readable bytes, and \<^verbatim>\<open>insert\<close> and \<^verbatim>\<open>erase\<close> in either
  variant.
\<close>

inductive reachable :: "PieceTable \<Rightarrow> bool" where
  r_initEmpty: "reachable (initEmpty tb)"
| r_initFromFile: "sz \<le> length data \<Longrightarrow> reachable (initFromFile data sz tb)"
| r_insert: "reachable tb \<Longrightarrow> reachable (pt_insert p s tb)"
| r_erase: "reachable tb \<Longrightarrow> reachable (pt_erase p n tb)"
| r_insert1: "reachable tb \<Longrightarrow> reachable (pt_insert1 p s tb)"
| r_erase1: "reachable tb \<Longrightarrow> reachable (pt_erase1 p n tb)"

text \<open>
  The offsets just after each \<^verbatim>\<open>'\n'\<close> of a byte string whose first byte is at
  offset \<open>g\<close>; used to describe the line index by the document alone.
\<close>

fun nls :: "nat \<Rightarrow> string \<Rightarrow> nat list" where
  "nls g [] = []"
| "nls g (c # cs) = (if c = newline then [g + 1] else []) @ nls (g + 1) cs"

section \<open>Histories of the undo log\<close>

text \<open>
  The states of the undo log that further pushes, undos and redos reach from a given
  one, for \<^verbatim>\<open>push\<close> of \<^verbatim>\<open>Source.cpp\<close> and \<^verbatim>\<open>part_002\<close> and for the one of
  \<^verbatim>\<open>part_001\<close>.
\<close>

inductive history :: "UndoManager \<Rightarrow> UndoManager \<Rightarrow> bool" where
  h_refl: "history um um"
| h_push: "history um um' \<Longrightarrow> history um (push b um')"
| h_undo: "history um um' \<Longrightarrow> canUndo um' \<Longrightarrow> history um (snd (popUndo um'))"
| h_redo: "history um um' \<Longrightarrow> canRedo um' \<Longrightarrow> history um (snd (popRedo um'))"

inductive history1 :: "UndoManager \<Rightarrow> UndoManager \<Rightarrow> bool" where
  h1_refl: "history1 um um"
| h1_push: "history1 um um' \<Longrightarrow> history1 um (push1 b um')"
| h1_undo: "history1 um um' \<Longrightarrow> undoStack um' \<noteq> [] \<Longrightarrow> history1 um (snd (popUndo um'))"
| h1_redo: "history1 um um' \<Longrightarrow> redoStack um' \<noteq> [] \<Longrightarrow> history1 um (snd (popRedo um'))"

text \<open>
  A cursor set as \<^verbatim>\<open>mergeCursors\<close> leaves it: any two cursors are apart, the end of one
  strictly before the start of the other.
\<close>

definition separated :: "Cursor list \<Rightarrow> bool" where
  "separated cs \<longleftrightarrow>
     (\<forall>i < length cs. \<forall>j < length cs. i \<noteq> j \<longrightarrow>
        Cursor_end (cs ! i) < Cursor_start (cs ! j) \<or> Cursor_end (cs ! j) < Cursor_start (cs ! i))"

section \<open>Example states\<close>

text \<open>An empty table, and the table of a freshly opened file with the given bytes.\<close>

definition emptyTable :: PieceTable where
  "emptyTable = \<lparr>origPtr = [], origSize = 0, addBuf = [], pieces = []\<rparr>"

definition tableOf :: "string \<Rightarrow> PieceTable" where
  "tableOf s = initFromFile s (length s) emptyTable"

text \<open>A collapsed cursor, and an editor that has just opened a file with the given bytes.\<close>

definition caret :: "nat \<Rightarrow> Cursor" where
  "caret p = \<lparr>head = p, anchor = p, desiredX = 0, originalAnchorX = 0, isVirtual = False\<rparr>"

definition editorOf :: "string \<Rightarrow> Cursor list \<Rightarrow> Editor" where
  "editorOf s cs =
     \<lparr>pt = tableOf s,
      undo = \<lparr>undoStack = [], redoStack = [], savePoint = 0\<rparr>,
      cursors = cs,
      lineStarts = buildLineStarts (tableOf s),
      isDirty = False,
      pendingPadding = emptyBatch,
      searchQuery = [], replaceQuery = [],
      searchMatchCase = False, searchWholeWord = False, searchRegex = False\<rparr>"

text \<open>
  An undo log in which three edits were made and saved and two of them undone: the save
  point (3) is above the size of the undo stack (1).
\<close>

definition undoneBelowSave :: UndoManager where
  "undoneBelowSave =
     snd (popUndo (snd (popUndo (markSaved
       (push1 emptyBatch (push1 emptyBatch (push1 emptyBatch
          \<lparr>undoStack = [], redoStack = [], savePoint = 0\<rparr>)))))))"

text \<open>A shaper that puts every offset at 0, and an engine that rejects the pattern \<^verbatim>\<open>(\<close>.\<close>

definition flatShaper :: shaper where
  "flatShaper tb ls p = 0"

definition toyRegex :: "string Regex" where
  "toyRegex =
     \<lparr>rx_compile = (\<lambda>q icase. if q = ''('' then None else Some q),
      rx_search = (\<lambda>re s. None),
      rx_iter = (\<lambda>re s fmt. [])\<rparr>"

section \<open>Correctness of the piece table\<close>

lemma plen_simps [simp]:
  "plen [] = 0" "plen (p # ps) = len p + plen ps" "plen (xs @ ys) = plen xs + plen ys"
  by (simp_all add: plen_def)

lemma ptxt_simps [simp]:
  "ptxt tb [] = []" "ptxt tb (p # ps) = pieceBytes tb p @ ptxt tb ps"
  "ptxt tb (xs @ ys) = ptxt tb xs @ ptxt tb ys"
  by (simp_all add: ptxt_def)

lemma pieces_ok_simps [simp]:
  "pieces_ok tb (xs @ ys) \<longleftrightarrow> pieces_ok tb xs \<and> pieces_ok tb ys"
  by (auto simp: pieces_ok_def)

lemma pieces_ok_Cons:
  "pieces_ok tb (p # ps) \<longleftrightarrow> piece_ok tb p \<and> pieces_ok tb ps"
  by (auto simp: pieces_ok_def)

lemma foldl_len: "foldl (\<lambda>s p. s + len p) a ps = a + plen ps"
  by (induction ps arbitrary: a) simp_all

lemma pt_length_plen: "pt_length tb = plen (pieces tb)"
  by (simp add: pt_length_def foldl_len)

lemma doc_ptxt: "doc tb = ptxt tb (pieces tb)"
  by (simp add: doc_def ptxt_def)

lemma wf_pieces_ok: "wf tb = pieces_ok tb (pieces tb)"
  by (simp add: wf_def pieces_ok_def)

lemma length_pieceBytes:
  "origSize tb \<le> length (origPtr tb) \<Longrightarrow> piece_ok tb p \<Longrightarrow> length (pieceBytes tb p) = len p"
  by (auto simp: pieceBytes_def bytes_def buffer_def piece_ok_def split: if_splits)

lemma length_ptxt: "pieces_ok tb ps \<Longrightarrow> length (ptxt tb ps) = plen ps"
  by (induction ps) (auto simp: pieces_ok_Cons length_pieceBytes pieces_ok_def)

lemma pieces_ok_take: "pieces_ok tb ps \<Longrightarrow> pieces_ok tb (take i ps)"
  and pieces_ok_drop: "pieces_ok tb ps \<Longrightarrow> pieces_ok tb (drop i ps)"
  by (metis append_take_drop_id pieces_ok_simps)+

lemma pieces_ok_nth: "pieces_ok tb ps \<Longrightarrow> i < length ps \<Longrightarrow> piece_ok tb (ps ! i)"
  by (simp add: pieces_ok_def list_all_length)

lemma ptxt_take: "pieces_ok tb ps \<Longrightarrow> ptxt tb (take i ps) = take (plen (take i ps)) (ptxt tb ps)"
proof -
  assume ok: "pieces_ok tb ps"
  have "ptxt tb ps = ptxt tb (take i ps) @ ptxt tb (drop i ps)"
    by (metis append_take_drop_id ptxt_simps(3))
  moreover have "length (ptxt tb (take i ps)) = plen (take i ps)"
    using ok by (simp add: length_ptxt pieces_ok_take)
  ultimately show ?thesis by simp
qed

lemma ptxt_drop: "pieces_ok tb ps \<Longrightarrow> ptxt tb (drop i ps) = drop (plen (take i ps)) (ptxt tb ps)"
proof -
  assume ok: "pieces_ok tb ps"
  have "ptxt tb ps = ptxt tb (take i ps) @ ptxt tb (drop i ps)"
    by (metis append_take_drop_id ptxt_simps(3))
  moreover have "length (ptxt tb (take i ps)) = plen (take i ps)"
    using ok by (simp add: length_ptxt pieces_ok_take)
  ultimately show ?thesis by simp
qed

lemma split_piece_eq:
  "idx < length ps \<Longrightarrow>
   split_piece idx k ps =
     take idx ps @
     [\<lparr>isOriginal = isOriginal (ps ! idx), start = start (ps ! idx), len = k\<rparr>,
      \<lparr>isOriginal = isOriginal (ps ! idx), start = start (ps ! idx) + k, len = len (ps ! idx) - k\<rparr>] @
     drop (Suc idx) ps"
  by (simp add: split_piece_def vec_insert_def upd_conv_take_nth_drop min_def)

lemma split_bytes:
  "0 < k \<Longrightarrow> k < len p \<Longrightarrow>
   pieceBytes tb \<lparr>isOriginal = isOriginal p, start = start p, len = k\<rparr> @
   pieceBytes tb \<lparr>isOriginal = isOriginal p, start = start p + k, len = len p - k\<rparr> = pieceBytes tb p"
  apply (simp add: pieceBytes_def bytes_def buffer_def)
  by (metis add.commute drop_drop le_add_diff_inverse less_imp_le_nat take_add)

lemma split_ok:
  "0 < k \<Longrightarrow> k < len p \<Longrightarrow> piece_ok tb p \<Longrightarrow>
   piece_ok tb \<lparr>isOriginal = isOriginal p, start = start p, len = k\<rparr> \<and>
   piece_ok tb \<lparr>isOriginal = isOriginal p, start = start p + k, len = len p - k\<rparr>"
  by (auto simp: piece_ok_def)

lemma split_piece_props:
  assumes "idx < length ps" "0 < k" "k < len (ps ! idx)" "pieces_ok tb ps"
  shows "ptxt tb (split_piece idx k ps) = ptxt tb ps"
    and "pieces_ok tb (split_piece idx k ps)"
    and "plen (take (Suc idx) (split_piece idx k ps)) = plen (take idx ps) + k"
    and "length (split_piece idx k ps) = Suc (length ps)"
proof -
  let ?p = "ps ! idx"
  have dec: "ps = take idx ps @ ?p # drop (Suc idx) ps"
    using assms(1) by (simp add: id_take_nth_drop)
  have okp: "piece_ok tb ?p" using assms pieces_ok_nth by blast
  show "ptxt tb (split_piece idx k ps) = ptxt tb ps"
    apply (subst (2) dec)
    using split_bytes[OF assms(2,3), of tb]
    by (simp add: split_piece_eq[OF assms(1)])
  show "pieces_ok tb (split_piece idx k ps)"
    using assms(4) split_ok[OF assms(2,3) okp]
    by (simp add: split_piece_eq[OF assms(1)] pieces_ok_Cons pieces_ok_take pieces_ok_drop)
  show "plen (take (Suc idx) (split_piece idx k ps)) = plen (take idx ps) + k"
    using assms(1) by (simp add: split_piece_eq[OF assms(1)] min_def)
  show "length (split_piece idx k ps) = Suc (length ps)"
    using assms(1) by (simp add: split_piece_eq[OF assms(1)] min_def)
qed

lemma insert_seek_spec:
  "idx \<le> length ps \<Longrightarrow> cur = plen (take idx ps) \<Longrightarrow> insert_seek ps pos cur idx = (c, i) \<Longrightarrow>
   idx \<le> i \<and> i \<le> length ps \<and> c = plen (take i ps) \<and>
   (i < length ps \<longrightarrow> pos \<le> c + len (ps ! i)) \<and> (idx < i \<longrightarrow> c < pos)"
proof (induction ps pos cur idx rule: insert_seek.induct)
  case (1 ps pos cur idx)
  show ?case
  proof (cases "idx < length ps \<and> cur + len (ps ! idx) < pos")
    case True
    then have rec: "insert_seek ps pos (cur + len (ps ! idx)) (idx + 1) = (c, i)"
      using "1.prems"(3) by (subst (asm) insert_seek.simps) simp
    have cur': "cur + len (ps ! idx) = plen (take (idx + 1) ps)"
      using True "1.prems"(2) by (simp add: take_Suc_conv_app_nth)
    have "idx + 1 \<le> length ps" using True by simp
    from "1.IH"[OF True this cur' rec]
    have ih: "idx + 1 \<le> i" "i \<le> length ps" "c = plen (take i ps)"
      "i < length ps \<longrightarrow> pos \<le> c + len (ps ! i)" "idx + 1 < i \<longrightarrow> c < pos"
      by auto
    have "c < pos"
    proof (cases "idx + 1 < i")
      case True then show ?thesis using ih by simp
    next
      case False
      then have "i = idx + 1" using ih(1) by simp
      then show ?thesis using ih(3) cur' True by simp
    qed
    then show ?thesis using ih by auto
  next
    case False
    then have "(c, i) = (cur, idx)"
      using "1.prems"(3) by (subst (asm) insert_seek.simps) auto
    then show ?thesis using False "1.prems" by auto
  qed
qed

lemma erase_seek_spec:
  "idx \<le> length ps \<Longrightarrow> cur = plen (take idx ps) \<Longrightarrow> cur \<le> pos \<Longrightarrow> erase_seek ps pos cur idx = (c, i) \<Longrightarrow>
   idx \<le> i \<and> i \<le> length ps \<and> c = plen (take i ps) \<and>
   (i < length ps \<longrightarrow> pos < c + len (ps ! i)) \<and> c \<le> pos"
proof (induction ps pos cur idx rule: erase_seek.induct)
  case (1 ps pos cur idx)
  show ?case
  proof (cases "idx < length ps \<and> cur + len (ps ! idx) \<le> pos")
    case True
    then have rec: "erase_seek ps pos (cur + len (ps ! idx)) (idx + 1) = (c, i)"
      using "1.prems"(4) by (subst (asm) erase_seek.simps) simp
    have cur': "cur + len (ps ! idx) = plen (take (idx + 1) ps)"
      using True "1.prems"(2) by (simp add: take_Suc_conv_app_nth)
    have "idx + 1 \<le> length ps" using True by simp
    from "1.IH"[OF True this cur' _ rec] True
    show ?thesis by auto
  next
    case False
    then have "(c, i) = (cur, idx)"
      using "1.prems"(4) by (subst (asm) erase_seek.simps) auto
    then show ?thesis using False "1.prems" by auto
  qed
qed

lemma insert_locate_props:
  assumes ok: "pieces_ok tb ps" and loc: "insert_locate pos ps = (ps1, idx1)"
  shows "ptxt tb ps1 = ptxt tb ps" and "pieces_ok tb ps1" and "idx1 \<le> length ps1"
    and "plen (take idx1 ps1) = min pos (plen ps)"
proof -
  obtain c i where seek: "insert_seek ps pos 0 0 = (c, i)" by fastforce
  from insert_seek_spec[OF _ _ seek]
  have sp: "i \<le> length ps" "c = plen (take i ps)" "i < length ps \<longrightarrow> pos \<le> c + len (ps ! i)"
    "0 < i \<longrightarrow> c < pos" by auto
  have c0: "i = 0 \<Longrightarrow> c = 0" using sp(2) by simp
  have cle: "c \<le> pos" using sp(4) c0 by (cases "i = 0") auto
  have all: "ptxt tb ps1 = ptxt tb ps \<and> pieces_ok tb ps1 \<and> idx1 \<le> length ps1 \<and>
             plen (take idx1 ps1) = min pos (plen ps)"
  proof (cases "i < length ps")
    case False
    then have "ps1 = ps" "idx1 = length ps" "i = length ps"
      using loc seek sp(1) by (auto simp: insert_locate_def)
    moreover have "plen ps \<le> pos" using \<open>i = length ps\<close> sp(2) cle by simp
    ultimately show ?thesis using ok by simp
  next
    case True
    let ?p = "ps ! i" and ?off = "pos - c"
    have dec: "ps = take i ps @ ?p # drop (Suc i) ps"
      using True by (simp add: id_take_nth_drop)
    have tot: "plen ps = c + len ?p + plen (drop (Suc i) ps)"
      by (subst dec) (simp add: sp(2))
    have ple: "pos \<le> c + len ?p" using sp(3) True by simp
    consider (split) "0 < ?off" "?off < len ?p" | (after) "?off = len ?p" "\<not> (0 < ?off \<and> ?off < len ?p)"
      | (before) "?off = 0" "?off \<noteq> len ?p"
      using ple cle by fastforce
    then show ?thesis
    proof cases
      case split
      then have eq: "ps1 = split_piece i ?off ps" "idx1 = Suc i"
        using loc seek True by (auto simp: insert_locate_def split_piece_def Let_def)
      have "plen (take i ps) + ?off = min pos (plen ps)"
        using cle ple tot sp(2) by simp
      then show ?thesis
        using split_piece_props[OF True split ok] eq True by simp
    next
      case after
      then have eq: "ps1 = ps" "idx1 = Suc i"
        using loc seek True by (auto simp: insert_locate_def Let_def)
      have "plen (take (Suc i) ps) = c + len ?p"
        using True by (simp add: take_Suc_conv_app_nth sp(2))
      moreover have "pos = c + len ?p" using after cle by simp
      ultimately show ?thesis using eq ok True tot by simp
    next
      case before
      then have eq: "ps1 = ps" "idx1 = i"
        using loc seek True by (auto simp: insert_locate_def Let_def)
      have "pos = c" using before cle by simp
      then show ?thesis using eq ok True tot sp(2) by simp
    qed
  qed
  from all show "ptxt tb ps1 = ptxt tb ps" and "pieces_ok tb ps1" and "idx1 \<le> length ps1"
    and "plen (take idx1 ps1) = min pos (plen ps)" by simp_all
qed

lemma pieceBytes_pieces_upd [simp]: "pieceBytes (tb\<lparr>pieces := X\<rparr>) p = pieceBytes tb p"
  by (simp add: pieceBytes_def buffer_def)

lemma piece_ok_pieces_upd [simp]: "piece_ok (tb\<lparr>pieces := X\<rparr>) p = piece_ok tb p"
  by (simp add: piece_ok_def)

lemma pieceBytes_pieces_upd' [simp]: "pieceBytes (tb\<lparr>pieces := X\<rparr>) = pieceBytes tb"
  by (rule ext) simp

lemma piece_ok_pieces_upd' [simp]: "piece_ok (tb\<lparr>pieces := X\<rparr>) = piece_ok tb"
  by (rule ext) simp

lemma ptxt_pieces_upd [simp]: "ptxt (tb\<lparr>pieces := X\<rparr>) ps = ptxt tb ps"
  by (simp add: ptxt_def)

lemma pieces_ok_pieces_upd [simp]: "pieces_ok (tb\<lparr>pieces := X\<rparr>) ps = pieces_ok tb ps"
  by (simp add: pieces_ok_def)

lemma piece_ext:
  assumes "piece_ok tb p" "origSize tb \<le> length (origPtr tb)"
  shows "piece_ok (tb\<lparr>addBuf := addBuf tb @ s\<rparr>) p"
    and "pieceBytes (tb\<lparr>addBuf := addBuf tb @ s\<rparr>) p = pieceBytes tb p"
  using assms by (auto simp: piece_ok_def pieceBytes_def bytes_def buffer_def split: if_splits)

lemma pieces_ext:
  assumes "pieces_ok tb ps"
  shows "pieces_ok (tb\<lparr>addBuf := addBuf tb @ s\<rparr>) ps"
    and "ptxt (tb\<lparr>addBuf := addBuf tb @ s\<rparr>) ps = ptxt tb ps"
proof -
  have o: "origSize tb \<le> length (origPtr tb)" using assms by (simp add: pieces_ok_def)
  have "list_all (piece_ok tb) ps \<Longrightarrow>
        list_all (piece_ok (tb\<lparr>addBuf := addBuf tb @ s\<rparr>)) ps \<and>
        ptxt (tb\<lparr>addBuf := addBuf tb @ s\<rparr>) ps = ptxt tb ps"
    by (induction ps) (simp_all add: piece_ext[OF _ o])
  then show "pieces_ok (tb\<lparr>addBuf := addBuf tb @ s\<rparr>) ps"
    and "ptxt (tb\<lparr>addBuf := addBuf tb @ s\<rparr>) ps = ptxt tb ps"
    using assms by (simp_all add: pieces_ok_def)
qed

lemma merge_bytes:
  "mergeable a b \<Longrightarrow> pieceBytes tb (a\<lparr>len := len a + len b\<rparr>) = pieceBytes tb a @ pieceBytes tb b"
  by (simp add: mergeable_def pieceBytes_def bytes_def buffer_def take_add add.commute)

lemma merge_ok:
  "mergeable a b \<Longrightarrow> piece_ok tb a \<Longrightarrow> piece_ok tb b \<Longrightarrow> piece_ok tb (a\<lparr>len := len a + len b\<rparr>)"
  by (auto simp: mergeable_def piece_ok_def)

lemma merge_at:
  assumes "Suc i < length ps" "mergeable (ps ! i) (ps ! Suc i)" "pieces_ok tb ps"
  shows "ptxt tb (vec_erase (Suc i) (ps[i := (ps ! i)\<lparr>len := len (ps ! i) + len (ps ! Suc i)\<rparr>])) = ptxt tb ps"
    and "pieces_ok tb (vec_erase (Suc i) (ps[i := (ps ! i)\<lparr>len := len (ps ! i) + len (ps ! Suc i)\<rparr>]))"
proof -
  let ?a = "ps ! i" and ?b = "ps ! Suc i"
  let ?m = "?a\<lparr>len := len ?a + len ?b\<rparr>"
  have i: "i < length ps" using assms(1) by simp
  have dec: "ps = take i ps @ ?a # ?b # drop (Suc (Suc i)) ps"
    using assms(1) i by (metis Cons_nth_drop_Suc append_take_drop_id)
  have res: "vec_erase (Suc i) (ps[i := ?m]) = take i ps @ ?m # drop (Suc (Suc i)) ps"
    using i by (simp add: vec_erase_def upd_conv_take_nth_drop min_def)
  have oka: "piece_ok tb ?a" and okb: "piece_ok tb ?b"
    using assms pieces_ok_nth i by blast+
  show "ptxt tb (vec_erase (Suc i) (ps[i := ?m])) = ptxt tb ps"
    unfolding res by (subst (3) dec) (simp add: merge_bytes[OF assms(2)])
  show "pieces_ok tb (vec_erase (Suc i) (ps[i := ?m]))"
    unfolding res using assms(3) merge_ok[OF assms(2) oka okb]
    by (simp add: pieces_ok_Cons pieces_ok_take pieces_ok_drop)
qed

lemma coalesceAround_props:
  assumes "pieces_ok tb ps"
  shows "ptxt tb (coalesceAround k ps) = ptxt tb ps \<and> pieces_ok tb (coalesceAround k ps)"
proof (cases "ps = []")
  case True
  then show ?thesis using assms by (simp add: coalesceAround_def)
next
  case False
  define idx where "idx = (if k \<ge> length ps then length ps - 1 else k)"
  have idx: "idx < length ps" using False by (auto simp: idx_def)
  define st where "st = (if idx > 0 \<and> mergeable (ps ! (idx - 1)) (ps ! idx)
               then (vec_erase idx (ps[idx - 1 := (ps ! (idx - 1))\<lparr>len := len (ps ! (idx - 1)) + len (ps ! idx)\<rparr>]),
                     idx - 1)
               else (ps, idx))"
  obtain ps1 idx1 where st_eq: "st = (ps1, idx1)" by fastforce
  have s1: "ptxt tb ps1 = ptxt tb ps \<and> pieces_ok tb ps1"
  proof (cases "idx > 0 \<and> mergeable (ps ! (idx - 1)) (ps ! idx)")
    case True
    then obtain i where i: "idx = Suc i" by (cases idx) auto
    have "ps1 = vec_erase (Suc i) (ps[i := (ps ! i)\<lparr>len := len (ps ! i) + len (ps ! Suc i)\<rparr>])"
      using True st_eq by (auto simp: st_def i)
    then show ?thesis using merge_at[of i ps tb] True idx assms by (simp add: i)
  next
    case False
    then have "ps1 = ps" using st_eq by (auto simp: st_def)
    then show ?thesis using assms by simp
  qed
  have res: "coalesceAround k ps =
     (if idx1 + 1 < length ps1 \<and> mergeable (ps1 ! idx1) (ps1 ! (idx1 + 1))
           then vec_erase (idx1 + 1) (ps1[idx1 := (ps1 ! idx1)\<lparr>len := len (ps1 ! idx1) + len (ps1 ! (idx1 + 1))\<rparr>])
           else ps1)"
    using False st_eq unfolding coalesceAround_def idx_def[symmetric] Let_def st_def[symmetric]
    by simp
  show ?thesis
  proof (cases "idx1 + 1 < length ps1 \<and> mergeable (ps1 ! idx1) (ps1 ! (idx1 + 1))")
    case True
    then show ?thesis using merge_at[of idx1 ps1 tb] s1 res by simp
  next
    case False
    then have "coalesceAround k ps = ps1" using res by auto
    then show ?thesis using s1 by simp
  qed
qed

lemma insert_pieces_props:
  assumes wf: "wf tb" and ins: "insert_pieces pos s tb = (tb', idx)" and s: "s \<noteq> []"
  shows "doc tb' = take pos (doc tb) @ s @ drop pos (doc tb)" and "wf tb'"
proof -
  obtain ps1 i where loc: "insert_locate pos (pieces tb) = (ps1, i)" by fastforce
  let ?new = "\<lparr>isOriginal = False, start = length (addBuf tb), len = length s\<rparr>"
  have tb': "tb' = tb\<lparr>addBuf := addBuf tb @ s, pieces := vec_insert i ?new ps1\<rparr>" and "idx = i"
    using ins loc by (auto simp: insert_pieces_def Let_def)
  have ok: "pieces_ok tb (pieces tb)" using wf by (simp add: wf_pieces_ok)
  note lp = insert_locate_props[OF ok loc]
  let ?pe = "tb\<lparr>addBuf := addBuf tb @ s\<rparr>"
  have ok1: "pieces_ok ?pe ps1" and tx1: "ptxt ?pe ps1 = doc tb"
    using pieces_ext[OF lp(2)] lp(1) by (simp_all add: doc_ptxt)
  have newb: "pieceBytes ?pe ?new = s"
    by (simp add: pieceBytes_def bytes_def buffer_def)
  have newok: "piece_ok ?pe ?new" using s by (simp add: piece_ok_def)
  have len: "plen (pieces tb) = length (doc tb)"
    using ok by (simp add: doc_ptxt length_ptxt)
  have tk: "ptxt ?pe (take i ps1) = take pos (doc tb)"
    using ptxt_take[OF ok1, of i] lp(4) tx1 len by (simp add: min_def)
  have dr: "ptxt ?pe (drop i ps1) = drop pos (doc tb)"
    using ptxt_drop[OF ok1, of i] lp(4) tx1 len by (simp add: min_def)
  have "doc tb' = ptxt ?pe (vec_insert i ?new ps1)"
    by (simp add: tb' doc_ptxt)
  then show "doc tb' = take pos (doc tb) @ s @ drop pos (doc tb)"
    using tk dr newb by (simp add: vec_insert_def)
  have "pieces_ok ?pe (vec_insert i ?new ps1)"
    using ok1 newok by (simp add: vec_insert_def pieces_ok_Cons pieces_ok_take pieces_ok_drop)
  then show "wf tb'"
    by (simp add: tb' wf_def pieces_ok_def piece_ok_def)
qed

lemma pt_insert_doc:
  assumes "wf tb"
  shows "doc (pt_insert pos s tb) = take pos (doc tb) @ s @ drop pos (doc tb)"
    and "wf (pt_insert pos s tb)"
proof -
  have "doc (pt_insert pos s tb) = take pos (doc tb) @ s @ drop pos (doc tb) \<and> wf (pt_insert pos s tb)"
  proof (cases "s = []")
    case True
    then show ?thesis using assms by (simp add: pt_insert_def)
  next
    case False
    obtain tb' idx where ins: "insert_pieces pos s tb = (tb', idx)" by fastforce
    note ip = insert_pieces_props[OF assms ins False]
    have ok: "pieces_ok tb' (pieces tb')" using ip(2) by (simp add: wf_pieces_ok)
    have eq: "pt_insert pos s tb = tb'\<lparr>pieces := coalesceAround idx (pieces tb')\<rparr>"
      using False ins by (simp add: pt_insert_def)
    show ?thesis
      using coalesceAround_props[OF ok, of idx] ip(1)
      by (simp add: eq doc_ptxt wf_pieces_ok)
  qed
  then show "doc (pt_insert pos s tb) = take pos (doc tb) @ s @ drop pos (doc tb)"
    and "wf (pt_insert pos s tb)" by simp_all
qed

lemma pt_insert1_doc:
  assumes "wf tb"
  shows "doc (pt_insert1 pos s tb) = take pos (doc tb) @ s @ drop pos (doc tb)"
    and "wf (pt_insert1 pos s tb)"
proof -
  have "doc (pt_insert1 pos s tb) = take pos (doc tb) @ s @ drop pos (doc tb) \<and> wf (pt_insert1 pos s tb)"
  proof (cases "s = []")
    case True
    then show ?thesis using assms by (simp add: pt_insert1_def)
  next
    case False
    obtain tb' idx where ins: "insert_pieces pos s tb = (tb', idx)" by fastforce
    note ip = insert_pieces_props[OF assms ins False]
    show ?thesis using ip False ins by (simp add: pt_insert1_def)
  qed
  then show "doc (pt_insert1 pos s tb) = take pos (doc tb) @ s @ drop pos (doc tb)"
    and "wf (pt_insert1 pos s tb)" by simp_all
qed

lemma trim_bytes:
  "n < len p \<Longrightarrow> pieceBytes tb (p\<lparr>start := start p + n, len := len p - n\<rparr>) = drop n (pieceBytes tb p)"
  by (simp add: pieceBytes_def bytes_def buffer_def drop_take add.commute)

lemma trim_ok:
  "n < len p \<Longrightarrow> piece_ok tb p \<Longrightarrow> piece_ok tb (p\<lparr>start := start p + n, len := len p - n\<rparr>)"
  by (auto simp: piece_ok_def)

lemma erase_loop_props:
  "pieces_ok tb ps \<Longrightarrow> idx \<le> length ps \<Longrightarrow>
   ptxt tb (erase_loop ps idx n) = ptxt tb (take idx ps) @ drop n (ptxt tb (drop idx ps)) \<and>
   pieces_ok tb (erase_loop ps idx n)"
proof (induction ps idx n rule: erase_loop.induct)
  case (1 ps idx n)
  show ?case
  proof (cases "idx < length ps \<and> n > 0")
    case False
    then have "erase_loop ps idx n = ps" by (subst erase_loop.simps) auto
    moreover have "ptxt tb ps = ptxt tb (take idx ps) @ ptxt tb (drop idx ps)"
      by (metis append_take_drop_id ptxt_simps(3))
    moreover have "idx = length ps \<or> n = 0" using False "1.prems" by auto
    ultimately show ?thesis using "1.prems" by auto
  next
    case True
    let ?p = "ps ! idx"
    have dr: "drop idx ps = ?p # drop (Suc idx) ps"
      using True by (simp add: Cons_nth_drop_Suc)
    have okp: "piece_ok tb ?p" using "1.prems" True pieces_ok_nth by blast
    have o: "origSize tb \<le> length (origPtr tb)" using "1.prems" by (simp add: pieces_ok_def)
    have lp: "length (pieceBytes tb ?p) = len ?p" using length_pieceBytes[OF o okp] .
    show ?thesis
    proof (cases "len ?p \<le> n")
      case le: True
      have eq: "erase_loop ps idx n = erase_loop (vec_erase idx ps) idx (n - len ?p)"
        using True le by (subst erase_loop.simps) simp
      have ok': "pieces_ok tb (vec_erase idx ps)"
        using "1.prems" by (simp add: vec_erase_def pieces_ok_take pieces_ok_drop)
      have l': "idx \<le> length (vec_erase idx ps)"
        using True by (auto simp: vec_erase_def min_def)
      have tk: "take idx (vec_erase idx ps) = take idx ps"
        using True by (simp add: vec_erase_def min_def)
      have dp: "drop idx (vec_erase idx ps) = drop (Suc idx) ps"
        using True by (simp add: vec_erase_def min_def)
      from "1.IH"(1)[OF True le ok' l']
      show ?thesis using le lp by (simp add: eq tk dp dr)
    next
      case gt: False
      let ?t = "?p\<lparr>start := start ?p + n, len := len ?p - n\<rparr>"
      have eq: "erase_loop ps idx n = ps[idx := ?t]"
        using True gt by (subst erase_loop.simps, simp, subst erase_loop.simps, simp)
      have upd: "ps[idx := ?t] = take idx ps @ ?t # drop (Suc idx) ps"
        using True by (simp add: upd_conv_take_nth_drop)
      have "n < len ?p" using gt by simp
      from trim_bytes[OF this, of tb] trim_ok[OF this okp]
      show ?thesis using "1.prems" lp gt
        by (simp add: eq upd dr pieces_ok_Cons pieces_ok_take pieces_ok_drop)
    qed
  qed
qed

lemma erase_locate_None:
  assumes ok: "pieces_ok tb ps" and loc: "erase_locate pos ps = None"
  shows "plen ps \<le> pos"
proof -
  obtain c i where seek: "erase_seek ps pos 0 0 = (c, i)" by fastforce
  from erase_seek_spec[OF _ _ _ seek]
  have sp: "i \<le> length ps" "c = plen (take i ps)" "c \<le> pos" by auto
  have "i \<ge> length ps" using loc seek by (auto simp: erase_locate_def Let_def split: if_splits)
  then show ?thesis using sp by simp
qed

lemma erase_locate_Some:
  assumes ok: "pieces_ok tb ps" and loc: "erase_locate pos ps = Some (ps1, idx1)"
  shows "ptxt tb ps1 = ptxt tb ps" and "pieces_ok tb ps1" and "idx1 \<le> length ps1"
    and "plen (take idx1 ps1) = pos" and "pos < plen ps"
proof -
  obtain c i where seek: "erase_seek ps pos 0 0 = (c, i)" by fastforce
  from erase_seek_spec[OF _ _ _ seek]
  have sp: "i \<le> length ps" "c = plen (take i ps)" "c \<le> pos"
    "i < length ps \<longrightarrow> pos < c + len (ps ! i)" by auto
  have i: "i < length ps" using loc seek by (auto simp: erase_locate_def Let_def split: if_splits)
  let ?p = "ps ! i"
  have dec: "ps = take i ps @ ?p # drop (Suc i) ps"
    using i by (simp add: id_take_nth_drop)
  have tot: "plen ps = c + len ?p + plen (drop (Suc i) ps)"
    by (subst dec) (simp add: sp(2))
  have lt: "pos < c + len ?p" using sp(4) i by simp
  have all: "ptxt tb ps1 = ptxt tb ps \<and> pieces_ok tb ps1 \<and> idx1 \<le> length ps1 \<and>
             plen (take idx1 ps1) = pos"
  proof (cases "pos > c")
    case True
    then have eq: "ps1 = split_piece i (pos - c) ps" "idx1 = Suc i"
      using loc seek i by (auto simp: erase_locate_def split_piece_def Let_def)
    have "0 < pos - c" "pos - c < len ?p" using True lt by auto
    from split_piece_props[OF i this ok] show ?thesis
      using eq i True sp(2) by simp
  next
    case False
    then have eq: "ps1 = ps" "idx1 = i"
      using loc seek i by (auto simp: erase_locate_def Let_def)
    then show ?thesis using ok i False sp by simp
  qed
  from all show "ptxt tb ps1 = ptxt tb ps" and "pieces_ok tb ps1" and "idx1 \<le> length ps1"
    and "plen (take idx1 ps1) = pos" by simp_all
  show "pos < plen ps" using tot lt by simp
qed

lemma erase_pieces_props:
  assumes ok: "pieces_ok tb ps"
  shows "case erase_pieces pos n ps of
           None \<Rightarrow> plen ps \<le> pos
         | Some (ps', idx) \<Rightarrow> ptxt tb ps' = take pos (ptxt tb ps) @ drop (pos + n) (ptxt tb ps) \<and>
                              pieces_ok tb ps' \<and> pos < plen ps"
proof (cases "erase_locate pos ps")
  case None
  then show ?thesis using erase_locate_None[OF ok None] by (simp add: erase_pieces_def)
next
  case (Some r)
  obtain ps1 idx1 where r: "r = (ps1, idx1)" by fastforce
  note lp = erase_locate_Some[OF ok Some[unfolded r]]
  have tk: "ptxt tb (take idx1 ps1) = take pos (ptxt tb ps)"
    using ptxt_take[OF lp(2), of idx1] lp(1,4) by simp
  have dr: "ptxt tb (drop idx1 ps1) = drop pos (ptxt tb ps)"
    using ptxt_drop[OF lp(2), of idx1] lp(1,4) by simp
  from erase_loop_props[OF lp(2,3), of n]
  show ?thesis using Some r tk dr lp(5) by (simp add: erase_pieces_def add.commute)
qed

lemma pt_erase_doc:
  assumes "wf tb"
  shows "doc (pt_erase pos n tb) = take pos (doc tb) @ drop (pos + n) (doc tb)"
    and "wf (pt_erase pos n tb)"
proof -
  have ok: "pieces_ok tb (pieces tb)" using assms by (simp add: wf_pieces_ok)
  have len: "plen (pieces tb) = length (doc tb)"
    using ok by (simp add: doc_ptxt length_ptxt)
  have "doc (pt_erase pos n tb) = take pos (doc tb) @ drop (pos + n) (doc tb) \<and> wf (pt_erase pos n tb)"
  proof (cases "n = 0")
    case True
    then show ?thesis using assms by (simp add: pt_erase_def)
  next
    case False
    show ?thesis
    proof (cases "erase_pieces pos n (pieces tb)")
      case None
      then show ?thesis using erase_pieces_props[OF ok, of pos n] assms False len
        by (simp add: pt_erase_def)
    next
      case (Some r)
      obtain ps' idx where r: "r = (ps', idx)" by fastforce
      from erase_pieces_props[OF ok, of pos n] Some r
      have p: "ptxt tb ps' = take pos (doc tb) @ drop (pos + n) (doc tb)" "pieces_ok tb ps'"
        by (simp_all add: doc_ptxt)
      show ?thesis
        using coalesceAround_props[OF p(2), of "if idx > 0 then idx - 1 else 0"] p(1) Some r False
        by (simp add: pt_erase_def doc_ptxt wf_pieces_ok)
    qed
  qed
  then show "doc (pt_erase pos n tb) = take pos (doc tb) @ drop (pos + n) (doc tb)"
    and "wf (pt_erase pos n tb)" by simp_all
qed

lemma pt_erase1_doc:
  assumes "wf tb"
  shows "doc (pt_erase1 pos n tb) = take pos (doc tb) @ drop (pos + n) (doc tb)"
    and "wf (pt_erase1 pos n tb)"
proof -
  have ok: "pieces_ok tb (pieces tb)" using assms by (simp add: wf_pieces_ok)
  have len: "plen (pieces tb) = length (doc tb)"
    using ok by (simp add: doc_ptxt length_ptxt)
  have "doc (pt_erase1 pos n tb) = take pos (doc tb) @ drop (pos + n) (doc tb) \<and> wf (pt_erase1 pos n tb)"
  proof (cases "n = 0")
    case True
    then show ?thesis using assms by (simp add: pt_erase1_def)
  next
    case False
    show ?thesis
    proof (cases "erase_pieces pos n (pieces tb)")
      case None
      then show ?thesis using erase_pieces_props[OF ok, of pos n] assms False len
        by (simp add: pt_erase1_def)
    next
      case (Some r)
      obtain ps' idx where r: "r = (ps', idx)" by fastforce
      from erase_pieces_props[OF ok, of pos n] Some r
      have p: "ptxt tb ps' = take pos (doc tb) @ drop (pos + n) (doc tb)" "pieces_ok tb ps'"
        by (simp_all add: doc_ptxt)
      show ?thesis
        using p Some r False
        by (simp add: pt_erase1_def doc_ptxt wf_pieces_ok)
    qed
  qed
  then show "doc (pt_erase1 pos n tb) = take pos (doc tb) @ drop (pos + n) (doc tb)"
    and "wf (pt_erase1 pos n tb)" by simp_all
qed


lemma reachable_wf: "reachable tb \<Longrightarrow> wf tb"
proof (induction rule: reachable.induct)
  case (r_initEmpty tb)
  then show ?case by (simp add: initEmpty_def wf_def)
next
  case (r_initFromFile sz data tb)
  then show ?case by (simp add: initFromFile_def wf_def piece_ok_def)
qed (simp_all add: pt_insert_doc pt_erase_doc pt_insert1_doc pt_erase1_doc)

lemma wf_len_pos: "wf tb \<Longrightarrow> p \<in> set (pieces tb) \<Longrightarrow> 0 < len p"
  by (auto simp: wf_def list_all_iff piece_ok_def)

lemma length_doc: "wf tb \<Longrightarrow> length (doc tb) = pt_length tb"
  by (simp add: doc_ptxt length_ptxt wf_pieces_ok pt_length_plen)

text \<open>
  Claim C4. In every state that the public operations of the piece table reach, every
  piece has a positive length, and \<^verbatim>\<open>length()\<close> is the sum of the lengths of the pieces.
\<close>

theorem C4_invariant:
  "reachable tb \<Longrightarrow>
   (\<forall>p \<in> set (pieces tb). 0 < len p) \<and> pt_length tb = sum_list (map len (pieces tb))"
  using reachable_wf wf_len_pos by (auto simp: pt_length_plen plen_def)

theorem C4_invariant_witness:
  "reachable (pt_erase 1 2 (pt_insert 1 ''xy'' (tableOf ''abcd''))) \<and>
   list_all (\<lambda>p. 0 < len p) (pieces (pt_erase 1 2 (pt_insert 1 ''xy'' (tableOf ''abcd'')))) \<and>
   pt_length (pt_erase 1 2 (pt_insert 1 ''xy'' (tableOf ''abcd''))) =
     sum_list (map len (pieces (pt_erase 1 2 (pt_insert 1 ''xy'' (tableOf ''abcd'')))))"
proof -
  have r: "reachable (pt_erase 1 2 (pt_insert 1 ''xy'' (tableOf ''abcd'')))"
    unfolding tableOf_def by (intro reachable.intros) simp
  from C4_invariant[OF r] r show ?thesis by (simp add: list_all_iff)
qed

subsection \<open>Reading bytes\<close>

lemma charAt_loop_beyond:
  "cur + plen ps \<le> pos \<Longrightarrow> charAt_loop tb pos ps cur = Some (CHR '' '')"
  by (induction ps arbitrary: cur) (simp_all add: add.assoc)

lemma charAt_loop_inside:
  "pieces_ok tb ps \<Longrightarrow> cur \<le> pos \<Longrightarrow> pos < cur + plen ps \<Longrightarrow>
   charAt_loop tb pos ps cur = Some (ptxt tb ps ! (pos - cur))"
proof (induction ps arbitrary: cur)
  case Nil
  then show ?case by simp
next
  case (Cons p ps)
  have o: "origSize tb \<le> length (origPtr tb)" and okp: "piece_ok tb p" and ok: "pieces_ok tb ps"
    using Cons.prems(1) by (simp_all add: pieces_ok_def)
  have lp: "length (pieceBytes tb p) = len p" using length_pieceBytes[OF o okp] .
  show ?case
  proof (cases "cur + len p \<le> pos")
    case True
    then have "charAt_loop tb pos (p # ps) cur = Some (ptxt tb ps ! (pos - (cur + len p)))"
      using Cons.IH[OF ok, of "cur + len p"] Cons.prems by simp
    moreover have "\<not> pos - cur < len p" "pos - cur - len p = pos - (cur + len p)" using True by auto
    ultimately show ?thesis using True lp by (simp add: nth_append)
  next
    case False
    then have lt: "pos - cur < len p" using Cons.prems by simp
    have inb: "start p + (pos - cur) < length (buffer tb p)"
      using okp o lt by (auto simp: piece_ok_def buffer_def split: if_splits)
    have "pieceBytes tb p ! (pos - cur) = buffer tb p ! (start p + (pos - cur))"
      using lt inb by (simp add: pieceBytes_def bytes_def)
    then show ?thesis using False lt lp inb by (simp add: readByte_def nth_append)
  qed
qed

lemma charAt_beyond: "pt_length tb \<le> pos \<Longrightarrow> charAt tb pos = Some (CHR '' '')"
  by (simp add: charAt_def charAt_loop_beyond pt_length_plen)

lemma charAt_inside: "wf tb \<Longrightarrow> pos < pt_length tb \<Longrightarrow> charAt tb pos = Some (doc tb ! pos)"
  using charAt_loop_inside[of tb "pieces tb" 0 pos]
  by (simp add: charAt_def wf_pieces_ok pt_length_plen doc_ptxt)

text \<open>
  Claim C10. \<^verbatim>\<open>charAt\<close> returns a byte at every position of a well-formed table (it
  never reads outside a buffer), and at every position at or beyond the length it
  returns the space character.
\<close>

theorem C10_charAt_total:
  "(wf tb \<longrightarrow> (\<exists>c. charAt tb pos = Some c)) \<and>
   (pt_length tb \<le> pos \<longrightarrow> charAt tb pos = Some (CHR '' ''))"
  using charAt_beyond[of tb pos] charAt_inside[of tb pos] by (cases "pos < pt_length tb") auto



lemma getRange_loop_spec:
  "pieces_ok tb ps \<Longrightarrow> length out \<le> count \<Longrightarrow> (out \<noteq> [] \<longrightarrow> pos \<le> cur) \<Longrightarrow>
   getRange_loop tb pos count ps cur out = out @ take (count - length out) (drop (pos - cur) (ptxt tb ps))"
proof (induction ps arbitrary: cur out)
  case Nil
  then show ?case by simp
next
  case (Cons p ps)
  have o: "origSize tb \<le> length (origPtr tb)" and okp: "piece_ok tb p" and ok: "pieces_ok tb ps"
    using Cons.prems(1) by (simp_all add: pieces_ok_def)
  have lp: "length (pieceBytes tb p) = len p" using length_pieceBytes[OF o okp] .
  show ?case
  proof (cases "cur + len p \<le> pos")
    case True
    have "out = []" using True Cons.prems(3) okp by (auto simp: piece_ok_def)
    then show ?thesis using True Cons.IH[OF ok, of out "cur + len p"] Cons.prems lp by simp
  next
    case False
    define ls where "ls = (if pos > cur then pos - cur else 0)"
    define tn where "tn = min (len p - ls) (count - length out)"
    have ls: "ls = pos - cur" by (simp add: ls_def)
    have lslt: "ls < len p" using False okp by (auto simp: ls_def piece_ok_def)
    have tnle: "tn \<le> len p - ls" by (simp add: tn_def)
    have b: "bytes (buffer tb p) (start p + ls) tn = take tn (drop ls (pieceBytes tb p))"
      using tnle by (simp add: bytes_def pieceBytes_def drop_take min_absorb1 add.commute)
    have btn: "length (take tn (drop ls (pieceBytes tb p))) = tn"
      using lp by (simp add: tn_def)
    show ?thesis
    proof (cases "tn = 0")
      case True
      then have "count = length out" using lslt Cons.prems(2) by (simp add: tn_def min_def split: if_splits)
      then show ?thesis using False True by (simp add: Let_def ls_def[symmetric] tn_def[symmetric])
    next
      case tn0: False
      let ?out' = "out @ take tn (drop ls (pieceBytes tb p))"
      show ?thesis
      proof (cases "length ?out' \<ge> count")
        case True
        then have "tn = count - length out" using btn Cons.prems(2) by (simp add: tn_def min_def split: if_splits)
        moreover have "tn \<le> len p - ls" by (simp add: tn_def)
        ultimately have "take (count - length out) (drop ls (pieceBytes tb p @ ptxt tb ps)) =
                         take tn (drop ls (pieceBytes tb p))"
          using lp lslt by simp
        then show ?thesis using False tn0 True b
          by (simp add: Let_def ls_def[symmetric] tn_def[symmetric] ls[symmetric])
      next
        case cont: False
        then have tnl: "tn = len p - ls" using btn by (simp add: tn_def min_def split: if_splits)
        have out': "?out' = out @ drop ls (pieceBytes tb p)" using tnl lp by simp
        have l': "length ?out' \<le> count" using cont by simp
        have "getRange_loop tb pos count (p # ps) cur out = getRange_loop tb pos count ps (cur + len p) ?out'"
          using False tn0 cont b by (simp add: Let_def ls_def[symmetric] tn_def[symmetric])
        also have "\<dots> = ?out' @ take (count - length ?out') (drop (pos - (cur + len p)) (ptxt tb ps))"
          using Cons.IH[OF ok l', of "cur + len p"] False by simp
        also have "\<dots> = out @ take (count - length out) (drop (pos - cur) (pieceBytes tb p @ ptxt tb ps))"
        proof -
          have le: "len p - ls \<le> count - length out" using cont btn tnl by simp
          have z: "pos - (cur + len p) = 0" using False by simp
          have "take (count - length out) (drop ls (pieceBytes tb p @ ptxt tb ps)) =
                drop ls (pieceBytes tb p) @ take (count - length out - (len p - ls)) (ptxt tb ps)"
            using lp lslt le by simp
          then show ?thesis using tnl lp by (simp add: ls[symmetric] z)
        qed
        finally show ?thesis by simp
      qed
    qed
  qed
qed

lemma getRange_doc: "wf tb \<Longrightarrow> getRange tb pos count = take count (drop pos (doc tb))"
  using getRange_loop_spec[of tb "pieces tb" "[]" count pos 0]
  by (simp add: getRange_def wf_pieces_ok doc_ptxt)

subsection \<open>Edge cases of the edit primitives\<close>

lemma erase_at_end: "pt_length tb \<le> pos \<Longrightarrow> pt_erase pos k tb = tb \<and> pt_erase1 pos k tb = tb"
proof -
  assume le: "pt_length tb \<le> pos"
  obtain c i where seek: "erase_seek (pieces tb) pos 0 0 = (c, i)" by fastforce
  from erase_seek_spec[OF _ _ _ seek]
  have sp: "i \<le> length (pieces tb)" "c = plen (take i (pieces tb))"
    "i < length (pieces tb) \<longrightarrow> pos < c + len (pieces tb ! i)" by auto
  have "\<not> i < length (pieces tb)"
  proof
    assume i: "i < length (pieces tb)"
    have "plen (take (Suc i) (pieces tb)) \<le> plen (pieces tb)"
      by (metis append_take_drop_id le_add1 plen_simps(3))
    moreover have "plen (take (Suc i) (pieces tb)) = c + len (pieces tb ! i)"
      using i sp(2) by (simp add: take_Suc_conv_app_nth)
    ultimately show False using sp(3) i le by (simp add: pt_length_plen)
  qed
  then have "erase_locate pos (pieces tb) = None"
    using seek by (simp add: erase_locate_def)
  then show ?thesis by (simp add: pt_erase_def pt_erase1_def erase_pieces_def)
qed

text \<open>
  Claim C6. The edit primitives are total and clamp. Erasing at the length changes
  nothing, whatever the count; inserting at the length appends; an empty insert and an
  erase of zero bytes change nothing; a position beyond the length acts as the length;
  and for every position and count the result is the document with the bytes spliced
  in or cut out, again a well-formed table. This holds for both variants of the
  primitives.
\<close>

theorem C6_total_primitives:
  assumes "wf tb"
  shows "pt_erase (pt_length tb) k tb = tb \<and>
         pt_erase (pt_length tb) k tb = pt_erase (pt_length tb) 0 tb \<and>
         doc (pt_insert (pt_length tb) s tb) = doc tb @ s \<and>
         pt_insert pos [] tb = tb \<and> pt_erase pos 0 tb = tb \<and>
         (pt_length tb \<le> pos \<longrightarrow> doc (pt_insert pos s tb) = doc tb @ s \<and> pt_erase pos k tb = tb) \<and>
         doc (pt_insert pos s tb) = take pos (doc tb) @ s @ drop pos (doc tb) \<and>
         doc (pt_erase pos k tb) = take pos (doc tb) @ drop (pos + k) (doc tb) \<and>
         wf (pt_insert pos s tb) \<and> wf (pt_erase pos k tb) \<and>
         pt_erase1 (pt_length tb) k tb = tb \<and>
         doc (pt_insert1 (pt_length tb) s tb) = doc tb @ s \<and>
         pt_insert1 pos [] tb = tb \<and> pt_erase1 pos 0 tb = tb \<and>
         (pt_length tb \<le> pos \<longrightarrow> doc (pt_insert1 pos s tb) = doc tb @ s \<and> pt_erase1 pos k tb = tb) \<and>
         doc (pt_insert1 pos s tb) = take pos (doc tb) @ s @ drop pos (doc tb) \<and>
         doc (pt_erase1 pos k tb) = take pos (doc tb) @ drop (pos + k) (doc tb) \<and>
         wf (pt_insert1 pos s tb) \<and> wf (pt_erase1 pos k tb)"
proof -
  have e0: "pt_erase (pt_length tb) k tb = tb" "pt_erase1 (pt_length tb) k tb = tb"
    using erase_at_end[of tb "pt_length tb" k] by simp_all
  have e00: "pt_erase (pt_length tb) 0 tb = tb" by (simp add: pt_erase_def)
  have z: "pt_insert pos [] tb = tb" "pt_erase pos 0 tb = tb"
    "pt_insert1 pos [] tb = tb" "pt_erase1 pos 0 tb = tb"
    by (simp_all add: pt_insert_def pt_erase_def pt_insert1_def pt_erase1_def)
  have app: "doc (pt_insert (pt_length tb) s tb) = doc tb @ s"
    "doc (pt_insert1 (pt_length tb) s tb) = doc tb @ s"
    using assms by (simp_all add: pt_insert_doc pt_insert1_doc length_doc)
  have cl: "pt_length tb \<le> pos \<longrightarrow> doc (pt_insert pos s tb) = doc tb @ s \<and> pt_erase pos k tb = tb"
    "pt_length tb \<le> pos \<longrightarrow> doc (pt_insert1 pos s tb) = doc tb @ s \<and> pt_erase1 pos k tb = tb"
    using assms erase_at_end[of tb pos k] by (simp_all add: pt_insert_doc pt_insert1_doc length_doc)
  show ?thesis
    using e0 e00 z app cl pt_insert_doc[OF assms] pt_erase_doc[OF assms]
      pt_insert1_doc[OF assms] pt_erase1_doc[OF assms]
    by simp
qed

section \<open>The line index and the insert/erase round trip\<close>

lemma nls_append: "nls g (xs @ ys) = nls g xs @ nls (g + length xs) ys"
  by (induction xs arbitrary: g) simp_all

lemma scanPiece_nls:
  assumes "start p + len p \<le> length (buffer tb p)"
  shows "scanPiece tb p g = nls g (pieceBytes tb p)"
proof -
  have "n \<le> len p \<Longrightarrow>
        [g + i + 1. i \<leftarrow> [0..<n], buffer tb p ! (start p + i) = newline] =
        nls g (take n (drop (start p) (buffer tb p)))" for n
  proof (induction n)
    case 0
    then show ?case by simp
  next
    case (Suc n)
    have lt: "n < length (drop (start p) (buffer tb p))" using Suc.prems assms by simp
    have tk: "take (Suc n) (drop (start p) (buffer tb p)) =
              take n (drop (start p) (buffer tb p)) @ [buffer tb p ! (start p + n)]"
      using lt assms by (simp add: take_Suc_conv_app_nth)
    have ln: "length (take n (drop (start p) (buffer tb p))) = n" using lt by simp
    show ?case using Suc ln by (simp add: tk nls_append)
  qed
  from this[of "len p"] show ?thesis by (simp add: scanPiece_def pieceBytes_def bytes_def)
qed

lemma lineStarts_loop_nls:
  "pieces_ok tb ps \<Longrightarrow> lineStarts_loop tb ps g ls = ls @ nls g (ptxt tb ps)"
proof (induction ps arbitrary: g ls)
  case Nil
  then show ?case by simp
next
  case (Cons p ps)
  have o: "origSize tb \<le> length (origPtr tb)" and okp: "piece_ok tb p" and ok: "pieces_ok tb ps"
    using Cons.prems(1) by (simp_all add: pieces_ok_def)
  have lp: "length (pieceBytes tb p) = len p" using length_pieceBytes[OF o okp] .
  have inb: "start p + len p \<le> length (buffer tb p)"
    using okp o by (auto simp: piece_ok_def buffer_def split: if_splits)
  show ?case using Cons.IH[OF ok] scanPiece_nls[OF inb] lp by (simp add: nls_append)
qed

lemma buildLineStarts_doc: "wf tb \<Longrightarrow> buildLineStarts tb = 0 # nls 0 (doc tb)"
  by (simp add: buildLineStarts_def lineStarts_loop_nls wf_pieces_ok doc_ptxt)

lemma nls_bounds: "x \<in> set (nls g xs) \<Longrightarrow> g < x \<and> x \<le> g + length xs"
  by (induction xs arbitrary: g) (fastforce split: if_splits)+

lemma nls_sorted: "sorted_wrt (<) (nls g xs)"
proof (induction xs arbitrary: g)
  case Nil
  then show ?case by simp
next
  case (Cons c cs)
  have "\<forall>x \<in> set (nls (g + 1) cs). g + 1 < x" using nls_bounds by blast
  then show ?case using Cons by simp
qed

lemma nls_comprehension: "nls g xs = [g + i + 1. i \<leftarrow> [0..<length xs], xs ! i = newline]"
proof (induction xs rule: rev_induct)
  case Nil
  then show ?case by simp
next
  case (snoc c cs)
  have "[g + i + 1. i \<leftarrow> [0..<length cs], (cs @ [c]) ! i = newline] =
        [g + i + 1. i \<leftarrow> [0..<length cs], cs ! i = newline]"
    by (rule arg_cong[where f=concat], rule map_cong) (simp_all add: nth_append)
  then show ?case using snoc by (simp add: nls_append)
qed

lemma nls0_comprehension: "nls 0 xs = [g + 1. g \<leftarrow> [0..<length xs], xs ! g = newline]"
  using nls_comprehension[of 0 xs] by (simp cong: if_cong)

lemma nls_length: "length (nls g xs) = count_list xs newline"
  by (induction xs arbitrary: g) simp_all

text \<open>
  Claim C5. After \<^verbatim>\<open>rebuildLineStarts\<close> the line index starts with 0, is strictly
  increasing, ends at or before the document length, and holds the entry \<open>g + 1\<close> for
  each \<^verbatim>\<open>'\n'\<close> at offset \<open>g\<close> of the document, in order, and nothing else besides the
  initial 0: one entry per newline plus one.
\<close>

theorem C5_line_index:
  assumes "wf (pt ed)"
  shows "hd (lineStarts (rebuildLineStarts ed)) = 0 \<and>
         sorted_wrt (<) (lineStarts (rebuildLineStarts ed)) \<and>
         last (lineStarts (rebuildLineStarts ed)) \<le> pt_length (pt ed) \<and>
         lineStarts (rebuildLineStarts ed) =
           0 # [g + 1. g \<leftarrow> [0..<length (doc (pt ed))], doc (pt ed) ! g = newline] \<and>
         length (lineStarts (rebuildLineStarts ed)) = 1 + count_list (doc (pt ed)) newline"
proof -
  let ?T = "doc (pt ed)"
  have ls: "lineStarts (rebuildLineStarts ed) = 0 # nls 0 ?T"
    using assms by (simp add: rebuildLineStarts_def buildLineStarts_doc)
  have b: "\<forall>x \<in> set (nls 0 ?T). 0 < x \<and> x \<le> length ?T" using nls_bounds[of _ 0 ?T] by auto
  have c1: "hd (0 # nls 0 ?T) = 0" by simp
  have c2: "sorted_wrt (<) (0 # nls 0 ?T)" using b nls_sorted[of 0 ?T] by simp
  have "last (0 # nls 0 ?T) \<le> length ?T"
    using b by (cases "nls 0 ?T = []") (auto simp del: nls.simps)
  then have c3: "last (0 # nls 0 ?T) \<le> pt_length (pt ed)" using length_doc[OF assms] by simp
  have c4: "0 # nls 0 ?T = 0 # [g + 1. g \<leftarrow> [0..<length ?T], ?T ! g = newline]"
    by (simp only: nls0_comprehension)
  have c5: "length (0 # nls 0 ?T) = 1 + count_list ?T newline" by (simp add: nls_length)
  show ?thesis unfolding ls using c1 c2 c3 c4 c5 by (intro conjI)
qed

theorem C5_line_index_witness:
  "wf (pt (editorOf ''a\<newline>b\<newline>c\<newline>'' [caret 0])) \<and>
   lineStarts (rebuildLineStarts (editorOf ''a\<newline>b\<newline>c\<newline>'' [caret 0])) = [0, 2, 4, 6]"
proof -
  let ?E = "editorOf ''a\<newline>b\<newline>c\<newline>'' [caret 0]"
  have w: "wf (pt ?E)" by code_simp
  from C5_line_index[OF w]
  have "lineStarts (rebuildLineStarts ?E) =
        0 # [g + 1. g \<leftarrow> [0..<length (doc (pt ?E))], doc (pt ?E) ! g = newline]" by blast
  also have "\<dots> = [0, 2, 4, 6]" by code_simp
  finally show ?thesis using w by blast
qed

text \<open>
  Claim C1. For a well-formed table, a position \<open>p\<close> at most the length and any bytes
  \<open>s\<close>, \<^verbatim>\<open>insert(p, s)\<close> followed by \<^verbatim>\<open>erase(p, s.size())\<close> gives back the same
  document bytes and the same rebuilt line index, in both variants of the primitives.
\<close>

theorem C1_insert_erase:
  assumes "wf tb" and "p \<le> pt_length tb"
  shows "doc (pt_erase p (length s) (pt_insert p s tb)) = doc tb \<and>
         buildLineStarts (pt_erase p (length s) (pt_insert p s tb)) = buildLineStarts tb \<and>
         doc (pt_erase1 p (length s) (pt_insert1 p s tb)) = doc tb \<and>
         buildLineStarts (pt_erase1 p (length s) (pt_insert1 p s tb)) = buildLineStarts tb"
proof -
  have le: "p \<le> length (doc tb)" using assms by (simp add: length_doc)
  have d: "doc (pt_erase p (length s) (pt_insert p s tb)) = doc tb"
    using assms(1) le by (simp add: pt_erase_doc pt_insert_doc)
  have d1: "doc (pt_erase1 p (length s) (pt_insert1 p s tb)) = doc tb"
    using assms(1) le by (simp add: pt_erase1_doc pt_insert1_doc)
  have w: "wf (pt_erase p (length s) (pt_insert p s tb))"
    "wf (pt_erase1 p (length s) (pt_insert1 p s tb))"
    using assms(1) by (simp_all add: pt_erase_doc pt_insert_doc pt_erase1_doc pt_insert1_doc)
  show ?thesis using d d1 w assms(1) by (simp add: buildLineStarts_doc)
qed

theorem C1_insert_erase_witness:
  "wf (tableOf ''a\<newline>b'') \<and> 1 \<le> pt_length (tableOf ''a\<newline>b'') \<and>
   doc (pt_erase 1 (length ''x\<newline>y'') (pt_insert 1 ''x\<newline>y'' (tableOf ''a\<newline>b''))) =
     doc (tableOf ''a\<newline>b'')"
proof -
  have w: "wf (tableOf ''a\<newline>b'')" by code_simp
  have l: "1 \<le> pt_length (tableOf ''a\<newline>b'')" by code_simp
  from C1_insert_erase[OF w l, of "''x\<newline>y''"] w l show ?thesis by blast
qed

theorem C6_total_primitives_witness:
  "wf (tableOf ''abc'') \<and>
   pt_erase (pt_length (tableOf ''abc'')) 5 (tableOf ''abc'') = tableOf ''abc'' \<and>
   doc (pt_insert (pt_length (tableOf ''abc'')) ''z'' (tableOf ''abc'')) = doc (tableOf ''abc'') @ ''z''"
proof -
  have w: "wf (tableOf ''abc'')" by code_simp
  from C6_total_primitives[OF w, of 5 "''z''" 0] w show ?thesis by blast
qed

theorem C10_charAt_total_witness:
  "wf (tableOf ''abc'') \<and> pt_length (tableOf ''abc'') \<le> 7 \<and>
   (\<exists>c. charAt (tableOf ''abc'') 1 = Some c) \<and> charAt (tableOf ''abc'') 7 = Some (CHR '' '')"
proof -
  have w: "wf (tableOf ''abc'')" by code_simp
  have l: "pt_length (tableOf ''abc'') \<le> 7" by code_simp
  from C10_charAt_total[of "tableOf ''abc''" 1] C10_charAt_total[of "tableOf ''abc''" 7] w l
  show ?thesis by blast
qed


section \<open>The undo log\<close>

lemma push_clears_redo: "redoStack (push b um) = []" "redoStack (push1 b um) = []"
  by (simp_all add: push_def push1_def Let_def)

lemma history_sentinel:
  "history um0 um \<Longrightarrow> savePoint um0 = -1 \<Longrightarrow> savePoint um = -1"
  by (induction rule: history.induct) (simp_all add: push_def popUndo_def popRedo_def Let_def)

lemma push_sentinel_keeps_modified:
  assumes "int (length (undoStack um)) < savePoint um" and "history (push b um) um'"
  shows "isModified um'"
proof -
  have "savePoint (push b um) = -1" using assms(1) by (simp add: push_def Let_def)
  from history_sentinel[OF assms(2) this] show ?thesis by (simp add: isModified_def)
qed

lemma push_sound:
  "redoStack (push b um) = [] \<and>
   (int (length (undoStack um)) < savePoint um \<longrightarrow>
      isModified (push b um) \<and> (\<forall>um'. history (push b um) um' \<longrightarrow> isModified um'))"
  using push_sentinel_keeps_modified[of um b] history.h_refl[of "push b um"] push_clears_redo(1)
  by blast

text \<open>
  Claim C3. \<^verbatim>\<open>push\<close> clears the redo stack in every variant. With \<^verbatim>\<open>push\<close> of
  \<^verbatim>\<open>Source.cpp\<close> and \<^verbatim>\<open>part_002\<close> a save point above the undo stack becomes the
  sentinel and the log stays modified (\<open>push_sound\<close>). \<^verbatim>\<open>push\<close> of \<^verbatim>\<open>part_001\<close>
  has no sentinel: from the log \<open>undoneBelowSave\<close>, whose save point 3 is above its
  undo stack of size 1, two pushes reach a log that reports "not modified".
\<close>

theorem C3_push1_forgets_lost_save_point:
  "int (length (undoStack undoneBelowSave)) < savePoint undoneBelowSave \<and>
   history1 (push1 emptyBatch undoneBelowSave) (push1 emptyBatch (push1 emptyBatch undoneBelowSave)) \<and>
   \<not> isModified (push1 emptyBatch (push1 emptyBatch undoneBelowSave))"
proof -
  have a: "int (length (undoStack undoneBelowSave)) < savePoint undoneBelowSave" by code_simp
  have b: "\<not> isModified (push1 emptyBatch (push1 emptyBatch undoneBelowSave))" by code_simp
  have c: "history1 (push1 emptyBatch undoneBelowSave) (push1 emptyBatch (push1 emptyBatch undoneBelowSave))"
    by (intro history1.intros)
  from a b c show ?thesis by blast
qed

subsection \<open>Undo and redo of a recorded batch\<close>

lemma redoOp_doc:
  assumes "wf tb"
  shows "wf (redoOp e tb)"
    and "optype e = Insert \<Longrightarrow>
         doc (redoOp e tb) = take (oppos e) (doc tb) @ optext e @ drop (oppos e) (doc tb)"
    and "optype e \<noteq> Insert \<Longrightarrow>
         doc (redoOp e tb) = take (oppos e) (doc tb) @ drop (oppos e + length (optext e)) (doc tb)"
  using assms by (simp_all add: redoOp_def pt_insert_doc pt_erase_doc)

lemma undoOp_doc:
  assumes "wf tb"
  shows "wf (undoOp e tb)"
    and "optype e = Insert \<Longrightarrow>
         doc (undoOp e tb) = take (oppos e) (doc tb) @ drop (oppos e + length (optext e)) (doc tb)"
    and "optype e \<noteq> Insert \<Longrightarrow>
         doc (undoOp e tb) = take (oppos e) (doc tb) @ optext e @ drop (oppos e) (doc tb)"
  using assms by (simp_all add: undoOp_def pt_insert_doc pt_erase_doc)

lemma wf_redo_ops: "wf tb \<Longrightarrow> wf (foldl (\<lambda>t e. redoOp e t) tb es)"
  by (induction es arbitrary: tb) (simp_all add: redoOp_doc)

lemma wf_undo_ops: "wf tb \<Longrightarrow> wf (foldl (\<lambda>t e. undoOp e t) tb es)"
  by (induction es arbitrary: tb) (simp_all add: undoOp_doc)

lemma redoOp_cong: "wf tb \<Longrightarrow> wf tb' \<Longrightarrow> doc tb = doc tb' \<Longrightarrow> doc (redoOp e tb) = doc (redoOp e tb')"
  by (cases "optype e = Insert") (simp_all add: redoOp_doc)

lemma redo_ops_cong:
  "wf tb \<Longrightarrow> wf tb' \<Longrightarrow> doc tb = doc tb' \<Longrightarrow>
   doc (foldl (\<lambda>t e. redoOp e t) tb es) = doc (foldl (\<lambda>t e. redoOp e t) tb' es)"
proof (induction es arbitrary: tb tb')
  case Nil
  then show ?case by simp
next
  case (Cons e es)
  show ?case
    using Cons.IH[of "redoOp e tb" "redoOp e tb'"] Cons.prems redoOp_cong[of tb tb' e]
    by (simp add: redoOp_doc)
qed

lemma undo_one:
  assumes wf: "wf tb" and ok: "if optype e = Insert then oppos e \<le> pt_length tb
                               else getRange tb (oppos e) (length (optext e)) = optext e"
    and wy: "wf y" and dy: "doc y = doc (redoOp e tb)"
  shows "doc (undoOp e y) = doc tb"
proof (cases "optype e = Insert")
  case True
  then have "oppos e \<le> length (doc tb)" using ok wf by (simp add: length_doc)
  then show ?thesis using True wf wy dy by (simp add: undoOp_doc redoOp_doc)
next
  case False
  let ?p = "oppos e" and ?t = "optext e" and ?T = "doc tb"
  have t: "take (length ?t) (drop ?p ?T) = ?t" using ok False wf by (simp add: getRange_doc)
  have D: "doc y = take ?p ?T @ drop (?p + length ?t) ?T" using False wf dy by (simp add: redoOp_doc)
  show ?thesis
  proof (cases "?p \<le> length ?T")
    case True
    have "take ?p (doc y) = take ?p ?T" using True by (simp add: D)
    moreover have "drop ?p (doc y) = drop (length ?t) (drop ?p ?T)"
      using True by (simp add: D add.commute)
    ultimately have "doc (undoOp e y) = take ?p ?T @ ?t @ drop (length ?t) (drop ?p ?T)"
      using False wy by (simp add: undoOp_doc)
    moreover have "?t @ drop (length ?t) (drop ?p ?T) = drop ?p ?T"
      using t by (metis append_take_drop_id)
    ultimately show ?thesis by (simp del: drop_drop)
  next
    case False
    then have "?t = []" using t by simp
    then show ?thesis using \<open>optype e \<noteq> Insert\<close> wy D False by (simp add: undoOp_doc)
  qed
qed

lemma undo_ops_restore:
  "wf tb \<Longrightarrow> recorded tb es \<Longrightarrow> wf y \<Longrightarrow> doc y = doc (foldl (\<lambda>t e. redoOp e t) tb es) \<Longrightarrow>
   doc (foldl (\<lambda>t e. undoOp e t) y (rev es)) = doc tb"
proof (induction es arbitrary: tb y)
  case Nil
  then show ?case by simp
next
  case (Cons e es)
  have w1: "wf (redoOp e tb)" using Cons.prems(1) by (simp add: redoOp_doc)
  have r1: "recorded (redoOp e tb) es" using Cons.prems(2) by simp
  have d1: "doc (foldl (\<lambda>t e. undoOp e t) y (rev es)) = doc (redoOp e tb)"
    using Cons.IH[OF w1 r1 Cons.prems(3)] Cons.prems(4) by simp
  have wy: "wf (foldl (\<lambda>t e. undoOp e t) y (rev es))" using Cons.prems(3) by (rule wf_undo_ops)
  have ok: "if optype e = Insert then oppos e \<le> pt_length tb
            else getRange tb (oppos e) (length (optext e)) = optext e"
    using Cons.prems(2) by simp
  show ?case using undo_one[OF Cons.prems(1) ok wy d1] by simp
qed

section \<open>Undo and redo in the editor\<close>

lemma pt_after [simp]:
  "pt (updateDirtyFlag ed) = pt ed" "pt (rebuildLineStarts ed) = pt ed"
  "undo (updateDirtyFlag ed) = undo ed" "undo (rebuildLineStarts ed) = undo ed"
  "cursors (updateDirtyFlag ed) = cursors ed" "cursors (rebuildLineStarts ed) = cursors ed"
  by (simp_all add: updateDirtyFlag_def rebuildLineStarts_def)

lemma performRedo_eq:
  assumes "redoStack (undo ed) \<noteq> []"
  shows "pt (performRedo ed) = foldl (\<lambda>t e. redoOp e t) (pt ed) (ops (last (redoStack (undo ed))))"
    and "undoStack (undo (performRedo ed)) = undoStack (undo ed) @ [last (redoStack (undo ed))]"
    and "redoStack (undo (performRedo ed)) = butlast (redoStack (undo ed))"
  using assms by (simp_all add: performRedo_def canRedo_def popRedo_def Let_def)

lemma performUndo_eq:
  assumes "undoStack (undo ed) \<noteq> []"
  shows "pt (performUndo ed) = foldl (\<lambda>t e. undoOp e t) (pt ed) (rev (ops (last (undoStack (undo ed)))))"
    and "redoStack (undo (performUndo ed)) = redoStack (undo ed) @ [last (undoStack (undo ed))]"
    and "undoStack (undo (performUndo ed)) = butlast (undoStack (undo ed))"
  using assms by (simp_all add: performUndo_def canUndo_def popUndo_def Let_def)

lemma redo_then_undo:
  assumes "wf (pt ed)" and "redoStack (undo ed) \<noteq> []"
    and "recorded (pt ed) (ops (last (redoStack (undo ed))))"
  shows "doc (pt (performUndo (performRedo ed))) = doc (pt ed)"
    and "undoStack (undo (performUndo (performRedo ed))) = undoStack (undo ed)"
    and "redoStack (undo (performUndo (performRedo ed))) = redoStack (undo ed)"
proof -
  let ?b = "last (redoStack (undo ed))"
  note r = performRedo_eq[OF assms(2)]
  have ne: "undoStack (undo (performRedo ed)) \<noteq> []" by (simp add: r(2))
  note u = performUndo_eq[OF ne]
  have w: "wf (pt (performRedo ed))" using assms(1) by (simp add: r(1) wf_redo_ops)
  show "doc (pt (performUndo (performRedo ed))) = doc (pt ed)"
    using undo_ops_restore[OF assms(1,3) w] by (simp add: u(1) r(1,2))
  show "undoStack (undo (performUndo (performRedo ed))) = undoStack (undo ed)"
    by (simp add: u(3) r(2))
  show "redoStack (undo (performUndo (performRedo ed))) = redoStack (undo ed)"
    using assms(2) by (simp add: u(2) r(2,3))
qed

lemma undo_then_redo:
  assumes "wf tb0" and "recorded tb0 (ops (last (undoStack (undo ed))))"
    and "wf (pt ed)" and "undoStack (undo ed) \<noteq> []"
    and "doc (pt ed) = doc (foldl (\<lambda>t e. redoOp e t) tb0 (ops (last (undoStack (undo ed)))))"
  shows "doc (pt (performRedo (performUndo ed))) = doc (pt ed)"
    and "undoStack (undo (performRedo (performUndo ed))) = undoStack (undo ed)"
    and "redoStack (undo (performRedo (performUndo ed))) = redoStack (undo ed)"
proof -
  let ?b = "last (undoStack (undo ed))"
  note u = performUndo_eq[OF assms(4)]
  have ne: "redoStack (undo (performUndo ed)) \<noteq> []" by (simp add: u(2))
  note r = performRedo_eq[OF ne]
  have w: "wf (pt (performUndo ed))" using assms(3) by (simp add: u(1) wf_undo_ops)
  have d: "doc (pt (performUndo ed)) = doc tb0"
    using undo_ops_restore[OF assms(1,2,3,5)] by (simp add: u(1))
  show "doc (pt (performRedo (performUndo ed))) = doc (pt ed)"
    using redo_ops_cong[OF w assms(1) d] assms(5) by (simp add: r(1) u(2))
  show "undoStack (undo (performRedo (performUndo ed))) = undoStack (undo ed)"
    using assms(4) by (simp add: r(2) u(2,3))
  show "redoStack (undo (performRedo (performUndo ed))) = redoStack (undo ed)"
    by (simp add: r(3) u(2))
qed

text \<open>
  The same for \<^verbatim>\<open>part_001\<close>, as long as the cast to \<^verbatim>\<open>int\<close> keeps the size: each
  operation of the batch carries fewer than \<open>2^31\<close> bytes.
\<close>

lemma int_cast_small: "n < 2 ^ 31 \<Longrightarrow> int_cast n = n"
  by (simp add: int_cast_def Let_def)

lemma op1_doc:
  assumes "wf tb" "wf tb'" "doc tb = doc tb'" "length (optext e) < 2 ^ 31"
  shows "doc (redoOp1 e tb) = doc (redoOp e tb')" "doc (undoOp1 e tb) = doc (undoOp e tb')"
    "wf (redoOp1 e tb)" "wf (undoOp1 e tb)"
  using assms
  by (simp_all add: redoOp1_def redoOp_def undoOp1_def undoOp_def int_cast_small
      pt_insert_doc pt_erase_doc pt_insert1_doc pt_erase1_doc)

lemma ops1_doc:
  assumes "\<forall>e \<in> set es. length (optext e) < 2 ^ 31"
  shows "wf tb \<Longrightarrow> wf tb' \<Longrightarrow> doc tb = doc tb' \<Longrightarrow>
         doc (foldl (\<lambda>t e. redoOp1 e t) tb es) = doc (foldl (\<lambda>t e. redoOp e t) tb' es) \<and>
         doc (foldl (\<lambda>t e. undoOp1 e t) tb es) = doc (foldl (\<lambda>t e. undoOp e t) tb' es) \<and>
         wf (foldl (\<lambda>t e. redoOp1 e t) tb es) \<and> wf (foldl (\<lambda>t e. undoOp1 e t) tb es)"
  using assms
proof (induction es arbitrary: tb tb')
  case Nil
  then show ?case by simp
next
  case (Cons e es)
  have s: "length (optext e) < 2 ^ 31" using Cons.prems(4) by simp
  note o = op1_doc[OF Cons.prems(1,2,3) s]
  have w': "wf (redoOp e tb')" "wf (undoOp e tb')"
    using Cons.prems(2) by (simp_all add: redoOp_doc undoOp_doc)
  show ?case
    using Cons.IH[OF o(3) w'(1) o(1)] Cons.IH[OF o(4) w'(2) o(2)] Cons.prems(4) by simp
qed

lemma performRedo1_eq:
  assumes "redoStack (undo ed) \<noteq> []"
  shows "pt (performRedo1 ed) = foldl (\<lambda>t e. redoOp1 e t) (pt ed) (ops (last (redoStack (undo ed))))"
    and "undoStack (undo (performRedo1 ed)) = undoStack (undo ed) @ [last (redoStack (undo ed))]"
    and "redoStack (undo (performRedo1 ed)) = butlast (redoStack (undo ed))"
  using assms by (simp_all add: performRedo1_def popRedo_def Let_def)

lemma performUndo1_eq:
  assumes "undoStack (undo ed) \<noteq> []"
  shows "pt (performUndo1 ed) = foldl (\<lambda>t e. undoOp1 e t) (pt ed) (rev (ops (last (undoStack (undo ed)))))"
    and "redoStack (undo (performUndo1 ed)) = redoStack (undo ed) @ [last (undoStack (undo ed))]"
    and "undoStack (undo (performUndo1 ed)) = butlast (undoStack (undo ed))"
  using assms by (simp_all add: performUndo1_def popUndo_def Let_def)

lemma redo_then_undo1:
  assumes "wf (pt ed)" and "redoStack (undo ed) \<noteq> []"
    and "recorded (pt ed) (ops (last (redoStack (undo ed))))"
    and "\<forall>e \<in> set (ops (last (redoStack (undo ed)))). length (optext e) < 2 ^ 31"
  shows "doc (pt (performUndo1 (performRedo1 ed))) = doc (pt ed)"
proof -
  let ?es = "ops (last (redoStack (undo ed)))"
  let ?R1 = "foldl (\<lambda>t e. redoOp1 e t) (pt ed) ?es" and ?R = "foldl (\<lambda>t e. redoOp e t) (pt ed) ?es"
  note r = performRedo1_eq[OF assms(2)]
  have ne: "undoStack (undo (performRedo1 ed)) \<noteq> []" by (simp add: r(2))
  note u = performUndo1_eq[OF ne]
  have a: "doc ?R1 = doc ?R" "wf ?R1" using ops1_doc[OF assms(4) assms(1) assms(1)] by simp_all
  have wR: "wf ?R" using assms(1) by (rule wf_redo_ops)
  have s: "\<forall>e \<in> set (rev ?es). length (optext e) < 2 ^ 31" using assms(4) by simp
  have "doc (foldl (\<lambda>t e. undoOp1 e t) ?R1 (rev ?es)) = doc (foldl (\<lambda>t e. undoOp e t) ?R (rev ?es))"
    using ops1_doc[OF s a(2) wR a(1)] by simp
  also have "\<dots> = doc (pt ed)" using undo_ops_restore[OF assms(1,3) wR] by simp
  finally show ?thesis by (simp add: u(1) r(1,2))
qed

lemma undo_then_redo1:
  assumes "wf tb0" and "recorded tb0 (ops (last (undoStack (undo ed))))"
    and "wf (pt ed)" and "undoStack (undo ed) \<noteq> []"
    and "doc (pt ed) = doc (foldl (\<lambda>t e. redoOp e t) tb0 (ops (last (undoStack (undo ed)))))"
    and "\<forall>e \<in> set (ops (last (undoStack (undo ed)))). length (optext e) < 2 ^ 31"
  shows "doc (pt (performRedo1 (performUndo1 ed))) = doc (pt ed)"
proof -
  let ?es = "ops (last (undoStack (undo ed)))"
  let ?U1 = "foldl (\<lambda>t e. undoOp1 e t) (pt ed) (rev ?es)" and ?U = "foldl (\<lambda>t e. undoOp e t) (pt ed) (rev ?es)"
  note u = performUndo1_eq[OF assms(4)]
  have ne: "redoStack (undo (performUndo1 ed)) \<noteq> []" by (simp add: u(2))
  note r = performRedo1_eq[OF ne]
  have s: "\<forall>e \<in> set (rev ?es). length (optext e) < 2 ^ 31" using assms(6) by simp
  have a: "doc ?U1 = doc ?U" "wf ?U1" using ops1_doc[OF s assms(3) assms(3)] by simp_all
  have dU: "doc ?U = doc tb0" using undo_ops_restore[OF assms(1,2,3,5)] .
  have "doc (foldl (\<lambda>t e. redoOp1 e t) ?U1 ?es) = doc (foldl (\<lambda>t e. redoOp e t) tb0 ?es)"
    using ops1_doc[OF assms(6) a(2) assms(1)] a(1) dU by simp
  then show ?thesis using assms(5) by (simp add: r(1) u(1,2))
qed

subsection \<open>A batch that undo does not invert\<close>

lemma int_cast_2_31: "int_cast (2 ^ 31) = 2 ^ 64 - 2 ^ 31"
  by (simp add: int_cast_def SIZE_MOD_def Let_def)

lemma big_insert1:
  fixes t :: string
  assumes "length t = 2 ^ 31"
  shows "doc (pt (insertAtCursors1 t (editorOf ''b'' [caret 0]))) = t @ ''b''"
    and "doc (pt (performRedo1 (performUndo1 (insertAtCursors1 t (editorOf ''b'' [caret 0]))))) = t"
proof -
  let ?E0 = "editorOf ''b'' [caret 0]"
  let ?E1 = "insertAtCursors1 t ?E0"
  have w0: "wf (tableOf ''b'')" by code_simp
  have d0: "doc (tableOf ''b'') = ''b''" by code_simp
  have p1: "pt ?E1 = pt_insert1 0 t (tableOf ''b'')"
    by (simp add: insertAtCursors1_def sortedCursors_def editorOf_def caret_def emptyBatch_def
        Cursor_start_def Cursor_end_def Let_def)
  have u1: "undoStack (undo ?E1) \<noteq> []" "ops (last (undoStack (undo ?E1))) = [\<lparr>optype = Insert, oppos = 0, optext = t\<rparr>]"
    by (simp_all add: insertAtCursors1_def sortedCursors_def editorOf_def caret_def emptyBatch_def
        Cursor_start_def Cursor_end_def Let_def push1_def)
  have w1: "wf (pt ?E1)" and d1: "doc (pt ?E1) = t @ ''b''"
    using w0 d0 by (simp_all add: p1 pt_insert1_doc)
  show "doc (pt ?E1) = t @ ''b''" by (rule d1)
  note u = performUndo1_eq[OF u1(1)]
  have ic: "int_cast (length t) = 2 ^ 64 - 2 ^ 31" using int_cast_2_31 assms by simp
  have pu: "pt (performUndo1 ?E1) = pt_erase1 0 (2 ^ 64 - 2 ^ 31) (pt ?E1)"
    by (simp only: u(1) u1(2) undoOp1_def ic rev.simps append_Nil foldl.simps EditOp.simps if_True refl simp_thms)
  have wu: "wf (pt (performUndo1 ?E1))" and du: "doc (pt (performUndo1 ?E1)) = []"
    using w1 d1 assms by (simp_all add: pu pt_erase1_doc)
  have ne: "redoStack (undo (performUndo1 ?E1)) \<noteq> []" by (simp add: u(2))
  note r = performRedo1_eq[OF ne]
  have "pt (performRedo1 (performUndo1 ?E1)) = pt_insert1 0 t (pt (performUndo1 ?E1))"
    by (simp add: r(1) u(2) u1(2) redoOp1_def)
  then show "doc (pt (performRedo1 (performUndo1 ?E1))) = t"
    using wu du by (simp add: pt_insert1_doc)
qed

text \<open>
  Claim C2. For a batch recorded from a well-formed table, undo followed by redo and
  redo followed by undo give back the document bytes (and both stacks): see
  \<open>undo_then_redo\<close> and \<open>redo_then_undo\<close> for \<^verbatim>\<open>Source.cpp\<close> and \<^verbatim>\<open>part_002\<close>, and
  \<open>undo_then_redo1\<close> and \<open>redo_then_undo1\<close> for \<^verbatim>\<open>part_001\<close> when every operation
  carries fewer than \<open>2^31\<close> bytes. At \<open>2^31\<close> bytes the cast of \<^verbatim>\<open>part_001\<close> turns
  the size into \<open>2^64 - 2^31\<close>: after inserting that many bytes in front of the
  document \<^verbatim>\<open>"b"\<close>, undo erases the whole document and redo brings back the
  inserted bytes only.
\<close>

theorem C2_undo1_truncates_size:
  "doc (pt (insertAtCursors1 (replicate (2 ^ 31) (CHR ''x'')) (editorOf ''b'' [caret 0]))) =
     replicate (2 ^ 31) (CHR ''x'') @ ''b'' \<and>
   doc (pt (performRedo1 (performUndo1
     (insertAtCursors1 (replicate (2 ^ 31) (CHR ''x'')) (editorOf ''b'' [caret 0]))))) =
     replicate (2 ^ 31) (CHR ''x'') \<and>
   doc (pt (performRedo1 (performUndo1
     (insertAtCursors1 (replicate (2 ^ 31) (CHR ''x'')) (editorOf ''b'' [caret 0]))))) \<noteq>
   doc (pt (insertAtCursors1 (replicate (2 ^ 31) (CHR ''x'')) (editorOf ''b'' [caret 0])))"
proof -
  have l: "length (replicate (2 ^ 31) (CHR ''x'')) = 2 ^ 31" by simp
  from big_insert1[OF l] show ?thesis by simp
qed

section \<open>Scenarios and error handling\<close>

text \<open>
  Claim C7. From the document \<^verbatim>\<open>"a\nb\nc\n"\<close> with collapsed cursors at 0, 2 and 4,
  inserting \<^verbatim>\<open>"X"\<close> at all cursors gives \<^verbatim>\<open>"Xa\nXb\nXc\n"\<close> and cursors at 1, 4 and
  7; the cursors are processed in descending order of their starts. Both variants of
  \<^verbatim>\<open>insertAtCursors\<close> agree.
\<close>

theorem C7_multi_caret_paste:
  "doc (pt (insertAtCursors ''X'' (editorOf ''a\<newline>b\<newline>c\<newline>'' [caret 0, caret 2, caret 4]))) =
     ''Xa\<newline>Xb\<newline>Xc\<newline>'' \<and>
   cursors (insertAtCursors ''X'' (editorOf ''a\<newline>b\<newline>c\<newline>'' [caret 0, caret 2, caret 4])) =
     [caret 1, caret 4, caret 7] \<and>
   sortedIndices [caret 0, caret 2, caret 4] = [2, 1, 0] \<and>
   doc (pt (insertAtCursors1 ''X'' (editorOf ''a\<newline>b\<newline>c\<newline>'' [caret 0, caret 2, caret 4]))) =
     ''Xa\<newline>Xb\<newline>Xc\<newline>'' \<and>
   cursors (insertAtCursors1 ''X'' (editorOf ''a\<newline>b\<newline>c\<newline>'' [caret 0, caret 2, caret 4])) =
     [caret 1, caret 4, caret 7] \<and>
   sortedCursors [caret 0, caret 2, caret 4] = [caret 4, caret 2, caret 0]"
  by code_simp

text \<open>
  Claim C8. From the document \<^verbatim>\<open>"A\nB"\<close> with one cursor on line 0, moving the line
  down with \<^verbatim>\<open>moveLines\<close> of \<^verbatim>\<open>part_002\<close> gives \<^verbatim>\<open>"B\nA"\<close>: the newline of the
  moved line goes to the line that was last, and the document still has no trailing
  newline.
\<close>

theorem C8_move_down_keeps_missing_newline:
  "doc (pt (moveLines flatShaper False (editorOf ''A\<newline>B'' [caret 0]))) = ''B\<newline>A'' \<and>
   doc (pt (moveLines flatShaper False (editorOf ''A\<newline>B'' [caret 0]))) \<noteq> ''B\<newline>A\<newline>''"
  by code_simp

text \<open>
  Claim C8 as amended. \<^verbatim>\<open>moveLines\<close> of \<^verbatim>\<open>part_001\<close> appends the missing newline
  first and gives \<^verbatim>\<open>"B\nA\n"\<close>; \<^verbatim>\<open>moveLines\<close> of \<^verbatim>\<open>part_002\<close> gives \<^verbatim>\<open>"B\nA"\<close>. In
  both, for either offset of the cursor on line 0 and whatever the shaper reports, the
  cursor moves by the two bytes of \<^verbatim>\<open>"B\n"\<close> and is on line 1, the line of \<^verbatim>\<open>"A"\<close>.
\<close>

theorem C8_move_down_across_eof:
  "doc (pt (moveLines1 X False (editorOf ''A\<newline>B'' [caret 0]))) = ''B\<newline>A\<newline>'' \<and>
   map head (cursors (moveLines1 X False (editorOf ''A\<newline>B'' [caret 0]))) = [2] \<and>
   getLineIdx (lineStarts (moveLines1 X False (editorOf ''A\<newline>B'' [caret 0]))) 2 = 1 \<and>
   doc (pt (moveLines1 X False (editorOf ''A\<newline>B'' [caret 1]))) = ''B\<newline>A\<newline>'' \<and>
   map head (cursors (moveLines1 X False (editorOf ''A\<newline>B'' [caret 1]))) = [3] \<and>
   getLineIdx (lineStarts (moveLines1 X False (editorOf ''A\<newline>B'' [caret 1]))) 3 = 1 \<and>
   doc (pt (moveLines X False (editorOf ''A\<newline>B'' [caret 0]))) = ''B\<newline>A'' \<and>
   map head (cursors (moveLines X False (editorOf ''A\<newline>B'' [caret 0]))) = [2] \<and>
   getLineIdx (lineStarts (moveLines X False (editorOf ''A\<newline>B'' [caret 0]))) 2 = 1 \<and>
   doc (pt (moveLines X False (editorOf ''A\<newline>B'' [caret 1]))) = ''B\<newline>A'' \<and>
   map head (cursors (moveLines X False (editorOf ''A\<newline>B'' [caret 1]))) = [3] \<and>
   getLineIdx (lineStarts (moveLines X False (editorOf ''A\<newline>B'' [caret 1]))) 3 = 1"
  by code_simp

text \<open>
  Claim C9. When the regular expression does not compile, \<^verbatim>\<open>findText\<close> in regex
  mode returns \<^verbatim>\<open>npos\<close> and \<^verbatim>\<open>replaceAll\<close> in regex mode returns the editor as it
  was: document, cursors and undo log included.
\<close>

theorem C9_invalid_regex:
  assumes "rx_compile R q (\<not> mc) = None"
  shows "findText R tb startPos q forward mc wholeWord True = None \<and>
         replaceAll R (ed\<lparr>searchQuery := q, searchMatchCase := mc, searchRegex := True\<rparr>) =
           ed\<lparr>searchQuery := q, searchMatchCase := mc, searchRegex := True\<rparr>"
  using assms by (simp add: findText_def findRegex_def replaceAll_def Let_def)

theorem C9_invalid_regex_witness:
  "rx_compile toyRegex ''('' (\<not> False) = None \<and>
   findText toyRegex (tableOf ''a(b'') 0 ''('' True False False True = None \<and>
   replaceAll toyRegex ((editorOf ''a(b'' [caret 1])\<lparr>searchQuery := ''('', searchMatchCase := False, searchRegex := True\<rparr>) =
     (editorOf ''a(b'' [caret 1])\<lparr>searchQuery := ''('', searchMatchCase := False, searchRegex := True\<rparr>"
proof -
  have c: "rx_compile toyRegex ''('' (\<not> False) = None" by (simp add: toyRegex_def)
  from C9_invalid_regex[OF c, of "tableOf ''a(b''" 0 True False "editorOf ''a(b'' [caret 1]"] c
  show ?thesis by blast
qed

text \<open>The search without regular expressions, on an example.\<close>

lemma plain_find: "findText toyRegex (tableOf ''a(b(('') 0 ''('' True False False False = Some 1"
  by code_simp

lemma plain_replace:
  "doc (pt (replaceAll toyRegex ((editorOf ''a(b(('' [caret 1])\<lparr>searchQuery := ''('', replaceQuery := ''xy''\<rparr>))) = ''axybxyxy''"
  by code_simp

text \<open>
  The batch that \<^verbatim>\<open>insertAtCursors\<close> logs in the scenario of claim C7 is recorded, and
  undo followed by redo gives the document back.
\<close>

lemma insertAtCursors_batch_recorded:
  "recorded (pt (editorOf ''a\<newline>b\<newline>c\<newline>'' [caret 0, caret 2, caret 4]))
     (ops (last (undoStack (undo (insertAtCursors ''X''
        (editorOf ''a\<newline>b\<newline>c\<newline>'' [caret 0, caret 2, caret 4]))))))"
  by code_simp

lemma insertAtCursors_undo_redo:
  "doc (pt (performUndo (insertAtCursors ''X''
      (editorOf ''a\<newline>b\<newline>c\<newline>'' [caret 0, caret 2, caret 4])))) = ''a\<newline>b\<newline>c\<newline>'' \<and>
   doc (pt (performRedo (performUndo (insertAtCursors ''X''
      (editorOf ''a\<newline>b\<newline>c\<newline>'' [caret 0, caret 2, caret 4]))))) = ''Xa\<newline>Xb\<newline>Xc\<newline>''"
  by code_simp


section \<open>The batches that \<^verbatim>\<open>insertAtCursors\<close> logs\<close>

lemma recorded_cong:
  "wf tb \<Longrightarrow> wf tb' \<Longrightarrow> doc tb = doc tb' \<Longrightarrow> recorded tb es = recorded tb' es"
proof (induction es arbitrary: tb tb')
  case Nil
  then show ?case by simp
next
  case (Cons e es)
  have "recorded (redoOp e tb) es = recorded (redoOp e tb') es"
    using Cons.IH[of "redoOp e tb" "redoOp e tb'"] Cons.prems redoOp_cong[of tb tb' e]
    by (simp add: redoOp_doc)
  then show ?case using Cons.prems by (simp add: getRange_doc length_doc[symmetric])
qed

lemma recorded_append:
  "recorded tb (es @ es') = (recorded tb es \<and> recorded (foldl (\<lambda>t e. redoOp e t) tb es) es')"
  by (induction es arbitrary: tb) auto

lemma logged_erase:
  assumes "wf tb"
  shows "recorded tb [\<lparr>optype = Erase, oppos = s, optext = getRange tb s l\<rparr>]"
    and "doc (redoOp \<lparr>optype = Erase, oppos = s, optext = getRange tb s l\<rparr> tb) = doc (pt_erase s l tb)"
proof -
  let ?T = "doc tb"
  have g: "getRange tb s l = take l (drop s ?T)" using assms by (rule getRange_doc)
  show "recorded tb [\<lparr>optype = Erase, oppos = s, optext = getRange tb s l\<rparr>]"
    by (simp add: g getRange_doc[OF assms] min_def)
  have "drop (s + min (length ?T - s) l) ?T = drop (s + l) ?T"
    by (cases "l \<le> length ?T - s") (simp_all add: min_def)
  then show "doc (redoOp \<lparr>optype = Erase, oppos = s, optext = getRange tb s l\<rparr> tb) = doc (pt_erase s l tb)"
    using assms by (simp add: redoOp_def pt_erase_doc g)
qed

lemma logged_insert:
  "p \<le> pt_length tb \<Longrightarrow> recorded tb [\<lparr>optype = Insert, oppos = p, optext = t\<rparr>]"
  by simp

lemma sortedIndices_single [simp]: "sortedIndices [c] = [0]"
  by (simp add: sortedIndices_def)

lemma commitPadding_keeps [simp]:
  "pt (commitPadding ed) = pt ed" "cursors (commitPadding ed) = cursors ed"
  by (simp_all add: commitPadding_def)

lemma push_top [simp]: "undoStack (push b um) \<noteq> []" "last (undoStack (push b um)) = b"
  by (simp_all add: push_def Let_def)

lemma insertAtCursors_single:
  assumes wf: "wf (pt ed)" and one: "cursors ed = [c]"
    and hb: "head c \<le> pt_length (pt ed)" and ab: "anchor c \<le> pt_length (pt ed)"
  shows "undoStack (undo (insertAtCursors txt ed)) \<noteq> []"
    and "recorded (pt ed) (ops (last (undoStack (undo (insertAtCursors txt ed)))))"
    and "doc (pt (insertAtCursors txt ed)) =
         doc (foldl (\<lambda>t e. redoOp e t) (pt ed) (ops (last (undoStack (undo (insertAtCursors txt ed))))))"
    and "wf (pt (insertAtCursors txt ed))"
proof -
  let ?E = "insertAtCursors txt ed"
  let ?s = "Cursor_start c" and ?l = "Cursor_end c - Cursor_start c"
  let ?ers = "\<lparr>optype = Erase, oppos = ?s, optext = getRange (pt ed) ?s ?l\<rparr>"
  let ?ins = "\<lparr>optype = Insert, oppos = ?s, optext = txt\<rparr>"
  have sb: "?s \<le> pt_length (pt ed)" using hb by (simp add: Cursor_start_def)
  show "undoStack (undo ?E) \<noteq> []"
    using one by (simp add: insertAtCursors_def Let_def split: prod.splits)
  have all: "recorded (pt ed) (ops (last (undoStack (undo ?E)))) \<and>
             doc (pt ?E) = doc (foldl (\<lambda>t e. redoOp e t) (pt ed) (ops (last (undoStack (undo ?E))))) \<and>
             wf (pt ?E)"
  proof (cases "hasSelection c")
    case False
    then have hs: "head c = ?s" by (simp add: hasSelection_def Cursor_start_def)
    have o: "ops (last (undoStack (undo ?E))) = [?ins]" and p: "pt ?E = pt_insert ?s txt (pt ed)"
      using one False hs by (simp_all add: insertAtCursors_def Let_def emptyBatch_def)
    show ?thesis using sb wf by (simp add: o p redoOp_def pt_insert_doc)
  next
    case True
    let ?t1 = "pt_erase ?s ?l (pt ed)"
    have o: "ops (last (undoStack (undo ?E))) = [?ers, ?ins]" and p: "pt ?E = pt_insert ?s txt ?t1"
      using one True by (simp_all add: insertAtCursors_def Let_def emptyBatch_def)
    have w1: "wf ?t1" using wf by (simp add: pt_erase_doc)
    have w1': "wf (redoOp ?ers (pt ed))" using wf by (simp add: redoOp_doc)
    note le = logged_erase[OF wf, of ?s ?l]
    have len1: "?s \<le> pt_length (redoOp ?ers (pt ed))"
      using sb wf w1' by (simp add: length_doc[symmetric] le(2) pt_erase_doc)
    have r: "recorded (pt ed) [?ers, ?ins]"
      using le(1) len1 by simp
    have d: "doc (pt_insert ?s txt ?t1) = doc (redoOp ?ins (redoOp ?ers (pt ed)))"
      using w1 w1' le(2) by (simp add: redoOp_def pt_insert_doc)
    show ?thesis using r d w1 by (simp add: o p pt_insert_doc)
  qed
  then show "recorded (pt ed) (ops (last (undoStack (undo ?E))))"
    and "doc (pt ?E) = doc (foldl (\<lambda>t e. redoOp e t) (pt ed) (ops (last (undoStack (undo ?E)))))"
    and "wf (pt ?E)" by simp_all
qed

lemma insertAtCursors_single_undo_redo:
  assumes "wf (pt ed)" and "cursors ed = [c]"
    and "head c \<le> pt_length (pt ed)" and "anchor c \<le> pt_length (pt ed)"
  shows "doc (pt (performUndo (insertAtCursors txt ed))) = doc (pt ed)"
    and "doc (pt (performRedo (performUndo (insertAtCursors txt ed)))) = doc (pt (insertAtCursors txt ed))"
proof -
  note ins = insertAtCursors_single[OF assms]
  show "doc (pt (performRedo (performUndo (insertAtCursors txt ed)))) = doc (pt (insertAtCursors txt ed))"
    using undo_then_redo(1)[OF assms(1) ins(2) ins(4) ins(1) ins(3)] .
  show "doc (pt (performUndo (insertAtCursors txt ed))) = doc (pt ed)"
    using undo_ops_restore[OF assms(1) ins(2) ins(4) ins(3)] performUndo_eq(1)[OF ins(1)] by simp
qed

lemma eraseSelections_no_selection:
  "\<forall>i \<in> set idxs. \<not> hasSelection (cursors ed ! i) \<Longrightarrow> eraseSelections idxs (ed, b) = (ed, b)"
  by (induction idxs) simp_all

lemma pt_length_insert: "wf tb \<Longrightarrow> p \<le> pt_length tb \<Longrightarrow> pt_length (pt_insert p t tb) = pt_length tb + length t"
  using length_doc[of "pt_insert p t tb"] length_doc[of tb] by (simp add: pt_insert_doc)

lemma insertTexts_inv:
  assumes "wf tb0"
  shows "wf (pt ed) \<Longrightarrow> recorded tb0 (ops b) \<Longrightarrow>
         doc (pt ed) = doc (foldl (\<lambda>t e. redoOp e t) tb0 (ops b)) \<Longrightarrow>
         \<forall>c \<in> set (cursors ed). head c \<le> pt_length (pt ed) \<Longrightarrow>
         \<forall>i \<in> set idxs. i < length (cursors ed) \<Longrightarrow>
         pt_length (pt ed) + length idxs * length txt < SIZE_MOD \<Longrightarrow>
         insertTexts txt idxs (ed, b) = (ed', b') \<Longrightarrow>
         wf (pt ed') \<and> recorded tb0 (ops b') \<and>
         doc (pt ed') = doc (foldl (\<lambda>t e. redoOp e t) tb0 (ops b')) \<and>
         (\<exists>es. ops b' = ops b @ es) \<and> beforeCursors b' = beforeCursors b \<and> undo ed' = undo ed"
proof (induction idxs arbitrary: ed b)
  case Nil
  then show ?case by simp
next
  case (Cons idx rest)
  let ?c = "cursors ed ! idx"
  let ?p = "head ?c"
  let ?e = "\<lparr>optype = Insert, oppos = ?p, optext = txt\<rparr>"
  let ?tb = "pt_insert ?p txt (pt ed)"
  let ?cs = "map (shiftRight ?p (length txt)) (cursors ed)"
  let ?ed1 = "ed\<lparr>pt := ?tb, cursors := ?cs\<rparr>"
  let ?b1 = "b\<lparr>ops := ops b @ [?e]\<rparr>"
  let ?R = "foldl (\<lambda>t e. redoOp e t) tb0 (ops b)"
  have idx: "idx < length (cursors ed)" using Cons.prems(5) by simp
  then have pin: "?p \<le> pt_length (pt ed)" using Cons.prems(4) by simp
  have wR: "wf ?R" using assms by (rule wf_redo_ops)
  have lenR: "pt_length ?R = pt_length (pt ed)"
    using length_doc[OF wR] length_doc[OF Cons.prems(1)] Cons.prems(3) by simp
  have w1: "wf (pt ?ed1)" using Cons.prems(1) by (simp add: pt_insert_doc)
  have r1: "recorded tb0 (ops ?b1)"
    using Cons.prems(2) pin lenR by (simp add: recorded_append)
  have d1: "doc (pt ?ed1) = doc (foldl (\<lambda>t e. redoOp e t) tb0 (ops ?b1))"
    using redoOp_cong[OF Cons.prems(1) wR Cons.prems(3), of ?e] by (simp add: redoOp_def)
  have len1: "pt_length (pt ?ed1) = pt_length (pt ed) + length txt"
    using pt_length_insert[OF Cons.prems(1) pin] by simp
  have room: "pt_length (pt ed) + length txt < SIZE_MOD" using Cons.prems(6) by simp
  have c1: "\<forall>c \<in> set (cursors ?ed1). head c \<le> pt_length (pt ?ed1)"
  proof
    fix c assume "c \<in> set (cursors ?ed1)"
    then obtain c0 where c0: "c0 \<in> set (cursors ed)" "c = shiftRight ?p (length txt) c0" by auto
    have "head c0 \<le> pt_length (pt ed)" using Cons.prems(4) c0(1) by simp
    then have "head c \<le> pt_length (pt ed) + length txt"
      using room by (simp add: c0(2) shiftRight_def sz_add_def)
    then show "head c \<le> pt_length (pt ?ed1)" using len1 by simp
  qed
  have i1: "\<forall>i \<in> set rest. i < length (cursors ?ed1)" using Cons.prems(5) by simp
  have room1: "pt_length (pt ?ed1) + length rest * length txt < SIZE_MOD"
    using Cons.prems(6) len1 by (simp add: add.assoc)
  have step: "insertTexts txt rest (?ed1, ?b1) = (ed', b')"
    using Cons.prems(7) by (simp add: Let_def)
  from Cons.IH[OF w1 r1 d1 c1 i1 room1 step] show ?case by auto
qed

lemma sortedIndices_set: "set (sortedIndices cs) = {0..<length cs}" "length (sortedIndices cs) = length cs"
  by (simp_all add: sortedIndices_def)

lemma insertAtCursors_carets:
  assumes wf: "wf (pt ed)" and ne: "cursors ed \<noteq> []"
    and carets: "\<forall>c \<in> set (cursors ed). \<not> hasSelection c \<and> head c \<le> pt_length (pt ed)"
    and room: "pt_length (pt ed) + length (cursors ed) * length txt < SIZE_MOD"
  shows "undoStack (undo (insertAtCursors txt ed)) \<noteq> []"
    and "recorded (pt ed) (ops (last (undoStack (undo (insertAtCursors txt ed)))))"
    and "doc (pt (insertAtCursors txt ed)) =
         doc (foldl (\<lambda>t e. redoOp e t) (pt ed) (ops (last (undoStack (undo (insertAtCursors txt ed))))))"
    and "wf (pt (insertAtCursors txt ed))"
proof -
  let ?ed = "commitPadding ed"
  let ?b = "emptyBatch\<lparr>beforeCursors := cursors ?ed\<rparr>"
  let ?idxs = "sortedIndices (cursors ?ed)"
  have nosel: "\<forall>i \<in> set ?idxs. \<not> hasSelection (cursors ?ed ! i)"
    using carets by (simp add: sortedIndices_set)
  have es: "eraseSelections ?idxs (?ed, ?b) = (?ed, ?b)"
    using eraseSelections_no_selection[OF nosel] .
  obtain ed2 b2 where it: "insertTexts txt ?idxs (?ed, ?b) = (ed2, b2)" by fastforce
  have inv: "wf (pt ed2) \<and> recorded (pt ed) (ops b2) \<and>
             doc (pt ed2) = doc (foldl (\<lambda>t e. redoOp e t) (pt ed) (ops b2))"
    using insertTexts_inv[OF wf, of ?ed ?b ?idxs "txt" ed2 b2] wf carets room it
    by (simp add: sortedIndices_set emptyBatch_def)
  have E: "insertAtCursors txt ed =
           updateDirtyFlag (rebuildLineStarts (ed2\<lparr>undo := push (b2\<lparr>afterCursors := cursors ed2\<rparr>) (undo ed2)\<rparr>))"
    using ne es it by (simp add: insertAtCursors_def Let_def)
  show "undoStack (undo (insertAtCursors txt ed)) \<noteq> []" by (simp add: E)
  show "recorded (pt ed) (ops (last (undoStack (undo (insertAtCursors txt ed)))))"
    using inv by (simp add: E)
  show "doc (pt (insertAtCursors txt ed)) =
         doc (foldl (\<lambda>t e. redoOp e t) (pt ed) (ops (last (undoStack (undo (insertAtCursors txt ed))))))"
    using inv by (simp add: E)
  show "wf (pt (insertAtCursors txt ed))" using inv by (simp add: E)
qed

lemma insertAtCursors_carets_undo_redo:
  assumes "wf (pt ed)" and "cursors ed \<noteq> []"
    and "\<forall>c \<in> set (cursors ed). \<not> hasSelection c \<and> head c \<le> pt_length (pt ed)"
    and "pt_length (pt ed) + length (cursors ed) * length txt < SIZE_MOD"
  shows "doc (pt (performUndo (insertAtCursors txt ed))) = doc (pt ed)"
    and "doc (pt (performRedo (performUndo (insertAtCursors txt ed)))) = doc (pt (insertAtCursors txt ed))"
proof -
  note ins = insertAtCursors_carets[OF assms]
  show "doc (pt (performRedo (performUndo (insertAtCursors txt ed)))) = doc (pt (insertAtCursors txt ed))"
    using undo_then_redo(1)[OF assms(1) ins(2) ins(4) ins(1) ins(3)] .
  show "doc (pt (performUndo (insertAtCursors txt ed))) = doc (pt ed)"
    using undo_ops_restore[OF assms(1) ins(2) ins(4) ins(3)] performUndo_eq(1)[OF ins(1)] by simp
qed

lemma sorted_wrt_distinct_rel:
  "distinct xs \<Longrightarrow> sorted_wrt P xs \<Longrightarrow>
   (\<And>x y. x \<in> set xs \<Longrightarrow> y \<in> set xs \<Longrightarrow> x \<noteq> y \<Longrightarrow> P x y \<Longrightarrow> Q x y) \<Longrightarrow> sorted_wrt Q xs"
  by (induction xs) auto

lemma start_le_end: "Cursor_start c \<le> Cursor_end c" "head c \<le> Cursor_end c" "anchor c \<le> Cursor_end c"
  "Cursor_start c \<le> head c" "Cursor_start c \<le> anchor c"
  by (simp_all add: Cursor_start_def Cursor_end_def)

lemma sortedIndices_order:
  assumes "separated cs"
  shows "sorted_wrt (\<lambda>i j. Cursor_end (cs ! j) < Cursor_start (cs ! i)) (sortedIndices cs)"
proof -
  let ?f = "\<lambda>i. - int (Cursor_start (cs ! i))"
  have "sorted (map ?f (sortedIndices cs))" by (simp add: sortedIndices_def)
  then have s: "sorted_wrt (\<lambda>i j. ?f i \<le> ?f j) (sortedIndices cs)" by (simp add: sorted_map)
  have d: "distinct (sortedIndices cs)" by (simp add: sortedIndices_def)
  show ?thesis
  proof (rule sorted_wrt_distinct_rel[OF d s])
    fix x y assume x: "x \<in> set (sortedIndices cs)" and y: "y \<in> set (sortedIndices cs)"
      and ne: "x \<noteq> y" and le: "?f x \<le> ?f y"
    have xl: "x < length cs" and yl: "y < length cs" using x y by (simp_all add: sortedIndices_set)
    have ge: "Cursor_start (cs ! y) \<le> Cursor_start (cs ! x)" using le by simp
    from assms xl yl ne have "Cursor_end (cs ! x) < Cursor_start (cs ! y) \<or> Cursor_end (cs ! y) < Cursor_start (cs ! x)"
      by (simp add: separated_def)
    then show "Cursor_end (cs ! y) < Cursor_start (cs ! x)"
      using ge start_le_end(1)[of "cs ! x"] by auto
  qed
qed

lemma pt_length_erase: "wf tb \<Longrightarrow> s + l \<le> pt_length tb \<Longrightarrow> pt_length (pt_erase s l tb) = pt_length tb - l"
  using length_doc[of "pt_erase s l tb"] length_doc[of tb] by (simp add: pt_erase_doc)

lemma eraseSelections_inv:
  assumes "wf tb0"
  shows "wf (pt ed) \<Longrightarrow> recorded tb0 (ops b) \<Longrightarrow>
         doc (pt ed) = doc (foldl (\<lambda>t e. redoOp e t) tb0 (ops b)) \<Longrightarrow>
         distinct idxs \<Longrightarrow> \<forall>i \<in> set idxs. i < length (cursors ed) \<Longrightarrow>
         sorted_wrt (\<lambda>i j. Cursor_end (cursors ed ! j) < Cursor_start (cursors ed ! i)) idxs \<Longrightarrow>
         \<forall>k < length (cursors ed). head (cursors ed ! k) \<le> pt_length (pt ed) \<and>
                                     anchor (cursors ed ! k) \<le> pt_length (pt ed) \<Longrightarrow>
         \<forall>k < length (cursors ed). k \<notin> set idxs \<longrightarrow>
            head (cursors ed ! k) = anchor (cursors ed ! k) \<and>
            (\<forall>j \<in> set idxs. Cursor_end (cursors ed ! j) < head (cursors ed ! k)) \<Longrightarrow>
         eraseSelections idxs (ed, b) = (ed', b') \<Longrightarrow>
         wf (pt ed') \<and> recorded tb0 (ops b') \<and>
         doc (pt ed') = doc (foldl (\<lambda>t e. redoOp e t) tb0 (ops b')) \<and>
         length (cursors ed') = length (cursors ed) \<and>
         (\<forall>c \<in> set (cursors ed'). head c \<le> pt_length (pt ed')) \<and>
         pt_length (pt ed') \<le> pt_length (pt ed)"
proof (induction idxs arbitrary: ed b)
  case Nil
  then show ?case by (auto simp: in_set_conv_nth)
next
  case (Cons idx rest)
  let ?cs = "cursors ed"
  let ?n = "length ?cs"
  let ?c = "?cs ! idx"
  have idx: "idx < ?n" using Cons.prems(5) by simp
  have nin: "idx \<notin> set rest" and dr: "distinct rest" using Cons.prems(4) by simp_all
  have rl: "\<forall>i \<in> set rest. i < ?n" using Cons.prems(5) by simp
  have before: "\<forall>j \<in> set rest. Cursor_end (?cs ! j) < Cursor_start ?c"
    and sr: "sorted_wrt (\<lambda>i j. Cursor_end (?cs ! j) < Cursor_start (?cs ! i)) rest"
    using Cons.prems(6) by simp_all
  show ?case
  proof (cases "hasSelection ?c")
    case False
    then have hc: "head ?c = anchor ?c" by (simp add: hasSelection_def)
    then have sc: "Cursor_start ?c = head ?c" by (simp add: Cursor_start_def)
    have step: "eraseSelections rest (ed, b) = (ed', b')"
      using Cons.prems(9) False by (simp add: Let_def)
    have proc: "\<forall>k < ?n. k \<notin> set rest \<longrightarrow>
            head (?cs ! k) = anchor (?cs ! k) \<and> (\<forall>j \<in> set rest. Cursor_end (?cs ! j) < head (?cs ! k))"
    proof (intro allI impI)
      fix k assume k: "k < ?n" "k \<notin> set rest"
      show "head (?cs ! k) = anchor (?cs ! k) \<and> (\<forall>j \<in> set rest. Cursor_end (?cs ! j) < head (?cs ! k))"
      proof (cases "k = idx")
        case True
        then show ?thesis using hc before sc by simp
      next
        case False
        then have "k \<notin> set (idx # rest)" using k by simp
        then show ?thesis using Cons.prems(8) k(1) by auto
      qed
    qed
    from Cons.IH[OF Cons.prems(1,2,3) dr rl sr Cons.prems(7) proc step] show ?thesis .
  next
    case True
    let ?s = "Cursor_start ?c"
    let ?l = "Cursor_end ?c - ?s"
    let ?e = "\<lparr>optype = Erase, oppos = ?s, optext = getRange (pt ed) ?s ?l\<rparr>"
    let ?tb = "pt_erase ?s ?l (pt ed)"
    let ?m = "map (shiftLeft ?s ?l) ?cs"
    let ?cs1 = "?m[idx := (?m ! idx)\<lparr>head := ?s, anchor := ?s\<rparr>]"
    let ?ed1 = "ed\<lparr>pt := ?tb, cursors := ?cs1\<rparr>"
    let ?b1 = "b\<lparr>ops := ops b @ [?e]\<rparr>"
    let ?R = "foldl (\<lambda>t e. redoOp e t) tb0 (ops b)"
    let ?len = "pt_length (pt ed)"
    have step: "eraseSelections rest (?ed1, ?b1) = (ed', b')"
      using Cons.prems(9) True by (simp add: Let_def)
    have lpos: "0 < ?l" using True by (auto simp: hasSelection_def Cursor_start_def Cursor_end_def)
    have endle: "?s + ?l \<le> ?len"
      using Cons.prems(7) idx by (auto simp: Cursor_start_def Cursor_end_def)
    have sl: "?s + ?l = Cursor_end ?c" using start_le_end(1)[of ?c] by simp
    have wR: "wf ?R" using assms by (rule wf_redo_ops)
    have w1: "wf (pt ?ed1)" using Cons.prems(1) by (simp add: pt_erase_doc)
    note le = logged_erase[OF Cons.prems(1), of ?s ?l]
    have "recorded ?R [?e]"
      using recorded_cong[OF Cons.prems(1) wR Cons.prems(3), of "[?e]"] le(1) by simp
    then have r1: "recorded tb0 (ops ?b1)" using Cons.prems(2) by (simp add: recorded_append)
    have d1: "doc (pt ?ed1) = doc (foldl (\<lambda>t e. redoOp e t) tb0 (ops ?b1))"
      using redoOp_cong[OF Cons.prems(1) wR Cons.prems(3), of ?e] le(2) by simp
    have len1: "pt_length (pt ?ed1) = ?len - ?l"
      using pt_length_erase[OF Cons.prems(1) endle] by simp
    have n1: "length (cursors ?ed1) = ?n" by simp
    have same: "\<forall>j \<in> set rest. ?cs1 ! j = ?cs ! j"
    proof
      fix j assume j: "j \<in> set rest"
      then have jn: "j < ?n" and ji: "j \<noteq> idx" using rl nin by auto
      have "Cursor_end (?cs ! j) < ?s" using before j by simp
      then have "head (?cs ! j) < ?s" "anchor (?cs ! j) < ?s"
        using start_le_end(2,3)[of "?cs ! j"] by simp_all
      then have "shiftLeft ?s ?l (?cs ! j) = ?cs ! j" by (simp add: shiftLeft_def)
      then show "?cs1 ! j = ?cs ! j" using jn ji by simp
    qed
    have at_idx: "?cs1 ! idx = (?m ! idx)\<lparr>head := ?s, anchor := ?s\<rparr>" using idx by simp
    have proc_old: "\<forall>k < ?n. k \<notin> set (idx # rest) \<longrightarrow>
        head (?cs1 ! k) = head (?cs ! k) - ?l \<and> anchor (?cs1 ! k) = head (?cs ! k) - ?l \<and>
        Cursor_end ?c < head (?cs ! k) \<and> head (?cs ! k) \<le> ?len"
    proof (intro allI impI)
      fix k assume k: "k < ?n" "k \<notin> set (idx # rest)"
      have ki: "k \<noteq> idx" using k(2) by simp
      have hk: "head (?cs ! k) = anchor (?cs ! k)" "Cursor_end ?c < head (?cs ! k)"
        using Cons.prems(8) k by auto
      have gt: "?s < head (?cs ! k)" "?l \<le> head (?cs ! k)" using hk(2) sl by simp_all
      have "shiftLeft ?s ?l (?cs ! k) = (?cs ! k)\<lparr>head := head (?cs ! k) - ?l, anchor := head (?cs ! k) - ?l\<rparr>"
        using gt hk(1) by (simp add: shiftLeft_def sz_sub_def)
      then show "head (?cs1 ! k) = head (?cs ! k) - ?l \<and> anchor (?cs1 ! k) = head (?cs ! k) - ?l \<and>
        Cursor_end ?c < head (?cs ! k) \<and> head (?cs ! k) \<le> ?len"
        using k(1) ki hk(2) Cons.prems(7) by simp
    qed
    have sr1: "sorted_wrt (\<lambda>i j. Cursor_end (cursors ?ed1 ! j) < Cursor_start (cursors ?ed1 ! i)) rest"
      using sr same by (auto intro: sorted_wrt_mono_rel[rotated])
    have bounds1: "\<forall>k < length (cursors ?ed1). head (cursors ?ed1 ! k) \<le> pt_length (pt ?ed1) \<and>
                                     anchor (cursors ?ed1 ! k) \<le> pt_length (pt ?ed1)"
    proof (intro allI impI)
      fix k assume "k < length (cursors ?ed1)"
      then have k: "k < ?n" by simp
      consider (i) "k = idx" | (r) "k \<in> set rest" | (p) "k \<notin> set (idx # rest)" by auto
      then show "head (cursors ?ed1 ! k) \<le> pt_length (pt ?ed1) \<and> anchor (cursors ?ed1 ! k) \<le> pt_length (pt ?ed1)"
      proof cases
        case i
        then show ?thesis using at_idx endle len1 by simp
      next
        case r
        have "Cursor_end (?cs ! k) < ?s" using before r by simp
        then have lt: "head (?cs ! k) < ?s" "anchor (?cs ! k) < ?s"
          using start_le_end(2,3)[of "?cs ! k"] by simp_all
        have eq: "cursors ?ed1 ! k = ?cs ! k" using same r by simp
        have "?s \<le> ?len - ?l" using endle by simp
        then show ?thesis using lt unfolding eq len1 by simp
      next
        case p
        with proc_old k have h: "head (?cs1 ! k) = head (?cs ! k) - ?l"
          "anchor (?cs1 ! k) = head (?cs ! k) - ?l" "head (?cs ! k) \<le> ?len" by blast+
        have "head (?cs ! k) - ?l \<le> ?len - ?l" using h(3) by (rule diff_le_mono)
        then show ?thesis using h(1,2) len1 by simp
      qed
    qed
    have proc1: "\<forall>k < length (cursors ?ed1). k \<notin> set rest \<longrightarrow>
            head (cursors ?ed1 ! k) = anchor (cursors ?ed1 ! k) \<and>
            (\<forall>j \<in> set rest. Cursor_end (cursors ?ed1 ! j) < head (cursors ?ed1 ! k))"
    proof (intro allI impI)
      fix k assume "k < length (cursors ?ed1)" and kr: "k \<notin> set rest"
      then have k: "k < ?n" by simp
      show "head (cursors ?ed1 ! k) = anchor (cursors ?ed1 ! k) \<and>
            (\<forall>j \<in> set rest. Cursor_end (cursors ?ed1 ! j) < head (cursors ?ed1 ! k))"
      proof (cases "k = idx")
        case True
        then show ?thesis using at_idx same before by simp
      next
        case False
        then have kp: "k \<notin> set (idx # rest)" using kr by simp
        from proc_old k kp have h: "head (?cs1 ! k) = head (?cs ! k) - ?l"
          "anchor (?cs1 ! k) = head (?cs ! k) - ?l" "Cursor_end ?c < head (?cs ! k)" by auto
        have "\<forall>j \<in> set rest. Cursor_end (?cs1 ! j) < head (?cs ! k) - ?l"
        proof
          fix j assume j: "j \<in> set rest"
          have "Cursor_end (?cs ! j) < ?s" using before j by simp
          then show "Cursor_end (?cs1 ! j) < head (?cs ! k) - ?l" using same j h(3) sl by simp
        qed
        then show ?thesis using h by simp
      qed
    qed
    have rl1: "\<forall>i \<in> set rest. i < length (cursors ?ed1)" using rl by simp
    note ih = Cons.IH[OF w1 r1 d1 dr rl1 sr1 bounds1 proc1 step]
    have "pt_length (pt ed') \<le> pt_length (pt ?ed1)" using ih by blast
    then have "pt_length (pt ed') \<le> ?len" unfolding len1 by simp
    moreover have "length (cursors ed') = ?n" using ih n1 by metis
    ultimately show ?thesis using ih by blast
  qed
qed


lemma insertAtCursors_separated:
  assumes wf: "wf (pt ed)" and ne: "cursors ed \<noteq> []"
    and bounds: "\<forall>c \<in> set (cursors ed). head c \<le> pt_length (pt ed) \<and> anchor c \<le> pt_length (pt ed)"
    and sep: "separated (cursors ed)"
    and room: "pt_length (pt ed) + length (cursors ed) * length txt < SIZE_MOD"
  shows "undoStack (undo (insertAtCursors txt ed)) \<noteq> []"
    and "recorded (pt ed) (ops (last (undoStack (undo (insertAtCursors txt ed)))))"
    and "doc (pt (insertAtCursors txt ed)) =
         doc (foldl (\<lambda>t e. redoOp e t) (pt ed) (ops (last (undoStack (undo (insertAtCursors txt ed))))))"
    and "wf (pt (insertAtCursors txt ed))"
proof -
  let ?ed = "commitPadding ed"
  let ?b = "emptyBatch\<lparr>beforeCursors := cursors ?ed\<rparr>"
  let ?idxs = "sortedIndices (cursors ?ed)"
  obtain ed1 b1 where es: "eraseSelections ?idxs (?ed, ?b) = (ed1, b1)" by fastforce
  obtain ed2 b2 where it: "insertTexts txt ?idxs (ed1, b1) = (ed2, b2)" by fastforce
  have w0: "wf (pt ?ed)" using wf by simp
  have r0: "recorded (pt ed) (ops ?b)" by (simp add: emptyBatch_def)
  have d0: "doc (pt ?ed) = doc (foldl (\<lambda>t e. redoOp e t) (pt ed) (ops ?b))"
    by (simp add: emptyBatch_def)
  have di: "distinct ?idxs" by (simp add: sortedIndices_def)
  have il: "\<forall>i \<in> set ?idxs. i < length (cursors ?ed)" by (simp add: sortedIndices_set)
  have so: "sorted_wrt (\<lambda>i j. Cursor_end (cursors ?ed ! j) < Cursor_start (cursors ?ed ! i)) ?idxs"
    using sortedIndices_order[OF sep] by simp
  have bo: "\<forall>k < length (cursors ?ed). head (cursors ?ed ! k) \<le> pt_length (pt ?ed) \<and>
                                     anchor (cursors ?ed ! k) \<le> pt_length (pt ?ed)"
    using bounds by simp
  have pr: "\<forall>k < length (cursors ?ed). k \<notin> set ?idxs \<longrightarrow>
            head (cursors ?ed ! k) = anchor (cursors ?ed ! k) \<and>
            (\<forall>j \<in> set ?idxs. Cursor_end (cursors ?ed ! j) < head (cursors ?ed ! k))"
    by (simp add: sortedIndices_set)
  note e = eraseSelections_inv[OF wf w0 r0 d0 di il so bo pr es]
  have w1: "wf (pt ed1)" and r1: "recorded (pt ed) (ops b1)"
    and d1: "doc (pt ed1) = doc (foldl (\<lambda>t e. redoOp e t) (pt ed) (ops b1))"
    and n1: "length (cursors ed1) = length (cursors ?ed)"
    and h1: "\<forall>c \<in> set (cursors ed1). head c \<le> pt_length (pt ed1)"
    and l1: "pt_length (pt ed1) \<le> pt_length (pt ?ed)"
    using e by blast+
  have il1: "\<forall>i \<in> set ?idxs. i < length (cursors ed1)" using il n1 by simp
  have room1: "pt_length (pt ed1) + length ?idxs * length txt < SIZE_MOD"
    using room l1 by (simp add: sortedIndices_set)
  note i = insertTexts_inv[OF wf w1 r1 d1 h1 il1 room1 it]
  have inv: "wf (pt ed2)" "recorded (pt ed) (ops b2)"
             "doc (pt ed2) = doc (foldl (\<lambda>t e. redoOp e t) (pt ed) (ops b2))"
    using i by blast+
  have E: "insertAtCursors txt ed =
           updateDirtyFlag (rebuildLineStarts (ed2\<lparr>undo := push (b2\<lparr>afterCursors := cursors ed2\<rparr>) (undo ed2)\<rparr>))"
    using ne es it by (simp add: insertAtCursors_def Let_def)
  show "undoStack (undo (insertAtCursors txt ed)) \<noteq> []" by (simp add: E)
  show "recorded (pt ed) (ops (last (undoStack (undo (insertAtCursors txt ed)))))"
    using inv by (simp add: E)
  show "doc (pt (insertAtCursors txt ed)) =
         doc (foldl (\<lambda>t e. redoOp e t) (pt ed) (ops (last (undoStack (undo (insertAtCursors txt ed))))))"
    using inv by (simp add: E)
  show "wf (pt (insertAtCursors txt ed))" using inv by (simp add: E)
qed

lemma insertAtCursors_separated_undo_redo:
  assumes "wf (pt ed)" and "cursors ed \<noteq> []"
    and "\<forall>c \<in> set (cursors ed). head c \<le> pt_length (pt ed) \<and> anchor c \<le> pt_length (pt ed)"
    and "separated (cursors ed)"
    and "pt_length (pt ed) + length (cursors ed) * length txt < SIZE_MOD"
  shows "doc (pt (performUndo (insertAtCursors txt ed))) = doc (pt ed)"
    and "doc (pt (performRedo (performUndo (insertAtCursors txt ed)))) = doc (pt (insertAtCursors txt ed))"
proof -
  note ins = insertAtCursors_separated[OF assms]
  show "doc (pt (performRedo (performUndo (insertAtCursors txt ed)))) = doc (pt (insertAtCursors txt ed))"
    using undo_then_redo(1)[OF assms(1) ins(2) ins(4) ins(1) ins(3)] .
  show "doc (pt (performUndo (insertAtCursors txt ed))) = doc (pt ed)"
    using undo_ops_restore[OF assms(1) ins(2) ins(4) ins(3)] performUndo_eq(1)[OF ins(1)] by simp
qed

end
